theory Spec2Isabelle
  imports Complex_Main "HOL-Library.Sublist"
begin

section \<open>The cavy test runner (src/TestRunner.js)\<close>

text \<open>
  \<^verbatim>\<open>TestRunner\<close> walks the test suites one after the other, runs every test case inside
  the host component, records one result per case and finally offers the report to the
  cavy-cli server. The embedding is sequential: every \<^verbatim>\<open>await\<close> of the source is a call
  that returns the settled outcome of the awaited operation.

  Everything outside the class is a parameter of the model:
  \<^item> the host application, the network and the clock form the world \<open>'w\<close>; a test body,
    a \<^verbatim>\<open>beforeEach\<close> hook, \<^verbatim>\<open>clearAsync\<close>, \<^verbatim>\<open>reRender\<close> and \<^verbatim>\<open>fetch\<close> are functions that take
    the world and return the new world with their outcome;
  \<^item> the console and the calls made are recorded in a trace of events, a ghost field
    of the runner's state.
  The test suites are immutable values: a body that rewrites \<^verbatim>\<open>testSuites\<close> while the
  runner iterates over it is outside the model. So are \<^verbatim>\<open>run\<close> and \<^verbatim>\<open>pause\<close>, which only start
  \<^verbatim>\<open>runTestSuites\<close> after the start delay and do not wait for it: the model begins where
  \<^verbatim>\<open>runTestSuites\<close> does.
\<close>

subsection \<open>Values that cross the boundary\<close>

text \<open>
  What a JavaScript callable can throw (or reject with), as far as the runner looks at
  it: the runner only reads \<^verbatim>\<open>e.message\<close> and renders it in a template literal.
  \<^item> \<open>ThrownError m\<close>: a value whose \<^verbatim>\<open>message\<close> property renders as \<open>m\<close>
    (\<^verbatim>\<open>new Error(m)\<close>);
  \<^item> \<open>ThrownOther\<close>: any other value that has properties but no \<^verbatim>\<open>message\<close>
    (\<^verbatim>\<open>throw 'boom'\<close>, \<^verbatim>\<open>throw 42\<close>): \<^verbatim>\<open>e.message\<close> is \<^verbatim>\<open>undefined\<close>;
  \<^item> \<open>ThrownNullish\<close>: \<^verbatim>\<open>undefined\<close> or \<^verbatim>\<open>null\<close> (\<^verbatim>\<open>throw undefined\<close>,
    \<^verbatim>\<open>Promise.reject()\<close>): reading \<^verbatim>\<open>e.message\<close> raises a TypeError.
\<close>

datatype thrown = ThrownError string | ThrownOther | ThrownNullish

text \<open>The settled outcome of an awaited call: it completes, it raises, or it never settles.\<close>

datatype outcome = Completes | Raises thrown | NeverSettles

text \<open>
  \<^verbatim>\<open>`${e.message}`\<close>: the text the template literal renders, or \<open>None\<close> when reading the
  property raises.
\<close>

fun message_of :: "thrown \<Rightarrow> string option" where
  "message_of (ThrownError m) = Some m"
| "message_of ThrownOther = Some ''undefined''"
| "message_of ThrownNullish = None"

text \<open>
  The TypeError the engine raises for \<^verbatim>\<open>e.message\<close> on \<^verbatim>\<open>undefined\<close> or \<^verbatim>\<open>null\<close>; its text
  differs between engines and no definition below reads it.
\<close>

definition message_read_error :: thrown where
  "message_read_error = ThrownError ''Cannot read property message of undefined''"

text \<open>The values the \<^verbatim>\<open>sendReport\<close> prop can hold, and JavaScript's view of them.\<close>

datatype jsval =
    JSUndefined | JSNull | JSBool bool | JSNumber int | JSNaN | JSString string | JSObject

text \<open>\<^verbatim>\<open>v != undefined\<close> (loose inequality): false for \<^verbatim>\<open>undefined\<close> and \<^verbatim>\<open>null\<close> only.\<close>

fun loosely_differs_from_undefined :: "jsval \<Rightarrow> bool" where
  "loosely_differs_from_undefined JSUndefined = False"
| "loosely_differs_from_undefined JSNull = False"
| "loosely_differs_from_undefined v = True"

text \<open>\<^verbatim>\<open>!v\<close> is \<open>\<not> truthy v\<close>.\<close>

fun truthy :: "jsval \<Rightarrow> bool" where
  "truthy JSUndefined = False"
| "truthy JSNull = False"
| "truthy (JSBool b) = b"
| "truthy (JSNumber n) = (n \<noteq> 0)"
| "truthy JSNaN = False"
| "truthy (JSString s) = (s \<noteq> [])"
| "truthy JSObject = True"

subsection \<open>The data model\<close>

record test_result =
  message :: string
  passed :: bool

record report =
  results :: "test_result list"
  errorCount :: nat
  duration :: rat

text \<open>
  A test case \<^verbatim>\<open>{description, f}\<close> and a test scope with its \<^verbatim>\<open>testCases\<close> and optional
  \<^verbatim>\<open>beforeEach\<close>. The source calls \<^verbatim>\<open>f\<close> and \<^verbatim>\<open>beforeEach\<close> with the scope as \<^verbatim>\<open>this\<close>; here
  they are closures over whatever they need from it.
\<close>

record 'w test_case =
  description :: string
  f :: "'w \<Rightarrow> 'w \<times> outcome"

record 'w test_scope =
  testCases :: "'w test_case list"
  beforeEach :: "('w \<Rightarrow> 'w \<times> outcome) option"

text \<open>The Tester component the runner drives.\<close>

record 'w component =
  clearAsync :: "'w \<Rightarrow> 'w \<times> outcome"
  reRender :: "'w \<Rightarrow> 'w \<times> outcome"

text \<open>
  An HTTP request as \<^verbatim>\<open>fetch(url, options)\<close> receives it, and what awaiting it gives:
  a response (for the probe, the text of its body), a rejection with an error (fetch
  rejects with a TypeError, whose message is kept), or nothing, ever.
\<close>

record request =
  url :: string
  http_method :: string
  headers :: "(string \<times> string) list"
  body :: "string option"

datatype fetch_outcome = Responds string | Fails string | Hangs

text \<open>The globals of the platform: \<^verbatim>\<open>fetch\<close> and the clock behind \<^verbatim>\<open>new Date()\<close> (milliseconds).\<close>

record 'w globals =
  fetch :: "request \<Rightarrow> 'w \<Rightarrow> 'w \<times> fetch_outcome"
  now :: "'w \<Rightarrow> int"

text \<open>What an observer of the run sees, in order.\<close>

datatype event =
    CalledClearAsync
  | CalledBeforeEach
  | CalledReRender
  | CalledBody string
  | LogStarted int
  | LogStopped int rat
  | ConsoleLog string
  | ConsoleWarn string
  | ConsoleGroup string
  | ConsoleGroupEnd
  | Fetched request

text \<open>
  The mutable part of a \<^verbatim>\<open>TestRunner\<close> (\<^verbatim>\<open>this.testResults\<close>, \<^verbatim>\<open>this.errorCount\<close>) together
  with the world and the trace.
\<close>

record 'w runner =
  world :: 'w
  testResults :: "test_result list"
  this_errorCount :: nat
  trace :: "event list"

text \<open>The constructor's arguments.\<close>

record 'w props =
  component :: "'w component"
  testSuites :: "'w test_scope list"
  startDelay :: jsval
  shouldSendReport :: jsval

definition TestRunner :: "'w \<Rightarrow> 'w runner" where
  "TestRunner w = \<lparr>world = w, testResults = [], this_errorCount = 0, trace = []\<rparr>"

text \<open>How an async function of the runner ends: its promise fulfils, rejects or stays pending.\<close>

datatype completion = Fulfilled | Rejected thrown | Pending

subsection \<open>Console and calls\<close>

definition emit :: "event \<Rightarrow> 'w runner \<Rightarrow> 'w runner" where
  "emit ev s = s\<lparr>trace := trace s @ [ev]\<rparr>"

text \<open>Calling (and awaiting) a callable of the host: the call is traced, the world moves on.\<close>

definition call :: "event \<Rightarrow> ('w \<Rightarrow> 'w \<times> outcome) \<Rightarrow> 'w runner \<Rightarrow> 'w runner \<times> outcome" where
  "call ev g s = (case g (world s) of (w', out) \<Rightarrow> (emit ev (s\<lparr>world := w'\<rparr>), out))"

text \<open>The marks of the result lines, as UTF-8: U+2705 and U+274C.\<close>

definition pass_mark :: string where
  "pass_mark = [CHR 0xE2, CHR 0x9C, CHR 0x85]"

definition fail_mark :: string where
  "fail_mark = [CHR 0xE2, CHR 0x9D, CHR 0x8C]"

text \<open>\<^verbatim>\<open>`${description}  <pass>`\<close> and \<^verbatim>\<open>`${description}  <fail>\n   ${e.message}`\<close>.\<close>

definition successMsg :: "string \<Rightarrow> string" where
  "successMsg d = d @ ''  '' @ pass_mark"

definition errorMsg :: "string \<Rightarrow> string \<Rightarrow> string" where
  "errorMsg d m = d @ ''  '' @ fail_mark @ [CHR 0x0A] @ ''   '' @ m"

subsection \<open>runTest\<close>

text \<open>
  Lines 86 to 101, the \<^verbatim>\<open>try\<close>/\<^verbatim>\<open>catch\<close> around the test body. In the \<^verbatim>\<open>catch\<close> block the message
  is built first; when \<^verbatim>\<open>e.message\<close> cannot be read, the block raises before anything is
  logged or pushed, and \<^verbatim>\<open>runTest\<close> rejects.
\<close>

definition runBody :: "'w test_case \<Rightarrow> 'w runner \<Rightarrow> 'w runner \<times> completion" where
  "runBody test s =
     (case call (CalledBody (description test)) (f test) s of
        (s1, Completes) \<Rightarrow>
          (let msg = successMsg (description test);
               s2 = emit (ConsoleLog msg) s1
           in (s2\<lparr>testResults := testResults s2 @ [\<lparr>message = msg, passed = True\<rparr>]\<rparr>, Fulfilled))
      | (s1, Raises e) \<Rightarrow>
          (case message_of e of
             None \<Rightarrow> (s1, Rejected message_read_error)
           | Some m \<Rightarrow>
               (let msg = errorMsg (description test) m;
                    s2 = emit (ConsoleWarn msg) s1
                in (s2\<lparr>testResults := testResults s2 @ [\<lparr>message = msg, passed = False\<rparr>],
                       this_errorCount := this_errorCount s2 + 1\<rparr>, Fulfilled)))
      | (s1, NeverSettles) \<Rightarrow> (s1, Pending))"

text \<open>
  Lines 82 to 84, the steps before the \<^verbatim>\<open>try\<close>: clear the storage, call \<^verbatim>\<open>beforeEach\<close> when
  the scope has one, re-render. Each call is awaited (or, for \<^verbatim>\<open>reRender\<close>, made) in turn; the
  first one that does not complete ends the steps.
\<close>

definition beforeTest :: "'w component \<Rightarrow> 'w test_scope \<Rightarrow> 'w runner \<Rightarrow> 'w runner \<times> outcome" where
  "beforeTest host scope s =
     (case call CalledClearAsync (clearAsync host) s of
        (s1, Raises e) \<Rightarrow> (s1, Raises e)
      | (s1, NeverSettles) \<Rightarrow> (s1, NeverSettles)
      | (s1, Completes) \<Rightarrow>
          (case (case beforeEach scope of
                   None \<Rightarrow> (s1, Completes)
                 | Some hook \<Rightarrow> call CalledBeforeEach hook s1) of
             (s2, Raises e) \<Rightarrow> (s2, Raises e)
           | (s2, NeverSettles) \<Rightarrow> (s2, NeverSettles)
           | (s2, Completes) \<Rightarrow> call CalledReRender (reRender host) s2))"

text \<open>
  \<^verbatim>\<open>runTest(scope, test)\<close>. The steps before the \<^verbatim>\<open>try\<close> are not guarded: what they raise
  leaves \<^verbatim>\<open>runTest\<close>.
\<close>

definition runTest :: "'w component \<Rightarrow> 'w test_scope \<Rightarrow> 'w test_case \<Rightarrow> 'w runner \<Rightarrow> 'w runner \<times> completion" where
  "runTest host scope test s =
     (case beforeTest host scope s of
        (s3, Raises e) \<Rightarrow> (s3, Rejected e)
      | (s3, NeverSettles) \<Rightarrow> (s3, Pending)
      | (s3, Completes) \<Rightarrow> runBody test s3)"

subsection \<open>The two loops of runTestSuites\<close>

text \<open>
  The inner loop over \<^verbatim>\<open>testSuites[i].testCases\<close> and the outer loop over \<^verbatim>\<open>testSuites\<close>
  (lines 38 to 45). Each \<^verbatim>\<open>runTest\<close> is awaited: a rejection leaves both loops.
\<close>

fun runCases :: "'w component \<Rightarrow> 'w test_scope \<Rightarrow> 'w test_case list \<Rightarrow> 'w runner \<Rightarrow> 'w runner \<times> completion" where
  "runCases host scope [] s = (s, Fulfilled)"
| "runCases host scope (t # ts) s =
     (case runTest host scope t s of
        (s', Fulfilled) \<Rightarrow> runCases host scope ts s'
      | (s', Rejected e) \<Rightarrow> (s', Rejected e)
      | (s', Pending) \<Rightarrow> (s', Pending))"

fun runSuites :: "'w component \<Rightarrow> 'w test_scope list \<Rightarrow> 'w runner \<Rightarrow> 'w runner \<times> completion" where
  "runSuites host [] s = (s, Fulfilled)"
| "runSuites host (scope # scopes) s =
     (case runCases host scope (testCases scope) s of
        (s', Fulfilled) \<Rightarrow> runSuites host scopes s'
      | (s', Rejected e) \<Rightarrow> (s', Rejected e)
      | (s', Pending) \<Rightarrow> (s', Pending))"

subsection \<open>JSON.stringify of a report\<close>

text \<open>
  \<^verbatim>\<open>JSON.stringify(report)\<close> for the object \<^verbatim>\<open>{results, errorCount, duration}\<close> the runner
  builds, after ECMA-262 (SerializeJSONObject, QuoteJSONString, Number::toString): the
  keys in creation order, no white space. Strings are byte strings (UTF-8): the quote,
  the backslash and the control characters are escaped, every other byte stands for
  itself.
\<close>

definition hex_digit :: "nat \<Rightarrow> char" where
  "hex_digit n = char_of (if n < 10 then 48 + n else 87 + n)"

definition quote_char :: "char \<Rightarrow> string" where
  "quote_char c =
     (if c = CHR 0x08 then [CHR 0x5C, CHR ''b'']
      else if c = CHR 0x09 then [CHR 0x5C, CHR ''t'']
      else if c = CHR 0x0A then [CHR 0x5C, CHR ''n'']
      else if c = CHR 0x0C then [CHR 0x5C, CHR ''f'']
      else if c = CHR 0x0D then [CHR 0x5C, CHR ''r'']
      else if c = CHR 0x22 then [CHR 0x5C, CHR 0x22]
      else if c = CHR 0x5C then [CHR 0x5C, CHR 0x5C]
      else if (of_char c :: nat) < 0x20 then
        [CHR 0x5C, CHR ''u'', CHR ''0'', CHR ''0'',
         hex_digit ((of_char c :: nat) div 16), hex_digit ((of_char c :: nat) mod 16)]
      else [c])"

definition QuoteJSONString :: "string \<Rightarrow> string" where
  "QuoteJSONString s = [CHR 0x22] @ concat (map quote_char s) @ [CHR 0x22]"

definition digit_char :: "nat \<Rightarrow> char" where
  "digit_char n = char_of (48 + n)"

text \<open>The decimal digits of a natural number, most significant first.\<close>

fun show_nat :: "nat \<Rightarrow> string" where
  "show_nat n = (if n < 10 then [digit_char n] else show_nat (n div 10) @ [digit_char (n mod 10)])"

declare show_nat.simps [simp del]

text \<open>
  The fraction digits of \<open>r\<close> thousandths, \<open>r < 1000\<close>: three digits without the trailing
  zeros, after the point; nothing for \<open>r = 0\<close>.
\<close>

definition show_thousandths :: "nat \<Rightarrow> string" where
  "show_thousandths r =
     (if r = 0 then []
      else if r mod 100 = 0 then [CHR ''.'', digit_char (r div 100)]
      else if r mod 10 = 0 then [CHR ''.'', digit_char (r div 100), digit_char (r div 10 mod 10)]
      else [CHR ''.'', digit_char (r div 100), digit_char (r div 10 mod 10), digit_char (r mod 10)])"

text \<open>
  Number::toString of a duration. \<^verbatim>\<open>(stop - start) / 1000\<close> is a whole number \<open>k\<close> of
  milliseconds divided by 1000; the model keeps the exact quotient where JavaScript keeps
  the nearest double. For \<open>\<bar>k\<bar> < 10^15\<close> that double prints as the decimal expansion of
  \<open>k / 1000\<close>, which is what is written here.
\<close>

definition show_millis :: "int \<Rightarrow> string" where
  "show_millis k =
     (if k < 0 then [CHR ''-''] else []) @ show_nat (nat \<bar>k\<bar> div 1000) @ show_thousandths (nat \<bar>k\<bar> mod 1000)"

definition show_number :: "rat \<Rightarrow> string" where
  "show_number d = show_millis \<lfloor>d * 1000\<rfloor>"

definition key :: "string \<Rightarrow> string" where
  "key k = QuoteJSONString k @ [CHR '':'']"

fun commas :: "string list \<Rightarrow> string" where
  "commas [] = []"
| "commas [x] = x"
| "commas (x # y # ys) = x @ [CHR '',''] @ commas (y # ys)"

definition stringify_result :: "test_result \<Rightarrow> string" where
  "stringify_result r =
     [CHR ''{''] @ key ''message'' @ QuoteJSONString (message r) @ [CHR '',''] @
     key ''passed'' @ (if passed r then ''true'' else ''false'') @ [CHR ''}'']"

definition JSON_stringify :: "report \<Rightarrow> string" where
  "JSON_stringify r =
     [CHR ''{''] @ key ''results'' @ [CHR ''[''] @ commas (map stringify_result (results r)) @ [CHR '']''] @
     [CHR '',''] @ key ''errorCount'' @ show_nat (errorCount r) @
     [CHR '',''] @ key ''duration'' @ show_number (duration r) @ [CHR ''}'']"

subsection \<open>Reporting to cavy-cli\<close>

definition probe_request :: request where
  "probe_request = \<lparr>url = ''http://127.0.0.1:8082/'', http_method = ''GET'', headers = [], body = None\<rparr>"

definition report_url :: string where
  "report_url = ''http://127.0.0.1:8082/report''"

definition post_request :: "report \<Rightarrow> request" where
  "post_request r =
     \<lparr>url = report_url, http_method = ''POST'',
      headers = [(''Content-Type'', ''application/json'')], body = Some (JSON_stringify r)\<rparr>"

text \<open>Awaiting \<^verbatim>\<open>fetch\<close>: the request is traced, the world moves on.\<close>

definition do_fetch :: "'w globals \<Rightarrow> request \<Rightarrow> 'w runner \<Rightarrow> 'w runner \<times> fetch_outcome" where
  "do_fetch g rq s = (case fetch g rq (world s) of (w', out) \<Rightarrow> (emit (Fetched rq) (s\<lparr>world := w'\<rparr>), out))"

text \<open>\<^verbatim>\<open>text.match(/literal/)\<close> for a pattern without special characters: does it occur?\<close>

fun occurs_in :: "string \<Rightarrow> string \<Rightarrow> bool" where
  "occurs_in p [] = (p = [])"
| "occurs_in p (c # cs) = (prefix p (c # cs) \<or> occurs_in p cs)"

definition handleError :: "string \<Rightarrow> string \<Rightarrow> 'w runner \<Rightarrow> 'w runner" where
  "handleError error_message u s =
     (if occurs_in ''Network request failed'' error_message then
        emit ConsoleGroupEnd
          (emit (ConsoleLog (''If you are using cavy-cli, maybe it'' @ [CHR 0x27] @
                   ''s not set up correctly or not reachable from this device?''))
             (emit (ConsoleGroup (''Cavy test report server is not running at '' @ u)) s))
      else
        emit ConsoleGroupEnd
          (emit (ConsoleWarn error_message)
             (emit (ConsoleGroup ''Error sending test results'') s)))"

definition send :: "'w globals \<Rightarrow> report \<Rightarrow> 'w runner \<Rightarrow> 'w runner \<times> completion" where
  "send g r s =
     (case do_fetch g (post_request r) s of
        (s1, Responds t) \<Rightarrow>
          (emit (ConsoleLog ''Cavy test report successfully sent to cavy-cli'') s1, Fulfilled)
      | (s1, Fails m) \<Rightarrow> (handleError m report_url s1, Fulfilled)
      | (s1, Hangs) \<Rightarrow> (s1, Pending))"

definition skipping :: "string \<Rightarrow> string" where
  "skipping m = ''Skipping sending test report to cavy-cli - '' @ m @ ''.''"

text \<open>
  \<^verbatim>\<open>reportResults\<close>: the probe, then \<^verbatim>\<open>send\<close> when the server answers \<^verbatim>\<open>cavy-cli running\<close>.
  \<open>Responds t\<close> stands for a \<^verbatim>\<open>fetch\<close> and a \<^verbatim>\<open>response.text()\<close> that both fulfil, \<open>Fails m\<close>
  for a rejection of either; the \<^verbatim>\<open>Error('Unexpected response')\<close> thrown in the \<^verbatim>\<open>try\<close> lands
  in the same \<^verbatim>\<open>catch\<close>.
\<close>

definition reportResults :: "'w globals \<Rightarrow> report \<Rightarrow> 'w runner \<Rightarrow> 'w runner \<times> completion" where
  "reportResults g r s =
     (case do_fetch g probe_request s of
        (s1, Responds t) \<Rightarrow>
          (if t = ''cavy-cli running'' then send g r s1
           else (emit (ConsoleLog (skipping ''Unexpected response'')) s1, Fulfilled))
      | (s1, Fails m) \<Rightarrow> (emit (ConsoleLog (skipping m)) s1, Fulfilled)
      | (s1, Hangs) \<Rightarrow> (s1, Pending))"

subsection \<open>runTestSuites\<close>

definition deprecation_warning :: string where
  "deprecation_warning =
     ''Deprecation warning: using the `sendReport` prop is '' @
     ''deprecated. By default, Cavy now checks whether the '' @
     ''cavy-cli server is running and sends a report if a '' @
     ''connection is detected.''"

text \<open>Lines 51 to 56: the report object, from the runner's fields and the duration.\<close>

definition compile_report :: "'w runner \<Rightarrow> rat \<Rightarrow> report" where
  "compile_report s d = \<lparr>results = testResults s, errorCount = this_errorCount s, duration = d\<rparr>"

text \<open>
  \<^verbatim>\<open>runTestSuites()\<close>. Beside the final state and the way the promise ends, the model
  returns the report object when the function got as far as building it (\<open>None\<close> when a
  rejection or a call that never settles left the loops before).
\<close>

definition runTestSuites :: "'w globals \<Rightarrow> 'w props \<Rightarrow> 'w runner \<Rightarrow> 'w runner \<times> report option \<times> completion" where
  "runTestSuites g p s0 =
     (let start = now g (world s0);
          s1 = emit (LogStarted start) s0
      in case runSuites (component p) (testSuites p) s1 of
           (s2, Rejected e) \<Rightarrow> (s2, None, Rejected e)
         | (s2, Pending) \<Rightarrow> (s2, None, Pending)
         | (s2, Fulfilled) \<Rightarrow>
             (let stop = now g (world s2);
                  d = of_int (stop - start) / 1000;
                  s3 = emit (LogStopped stop d) s2;
                  r = compile_report s3 d
              in if loosely_differs_from_undefined (shouldSendReport p) then
                   (let s4 = emit (ConsoleWarn deprecation_warning) s3
                    in if \<not> truthy (shouldSendReport p) then (s4, Some r, Fulfilled)
                       else (case reportResults g r s4 of (s5, c) \<Rightarrow> (s5, Some r, c)))
                 else (case reportResults g r s3 of (s5, c) \<Rightarrow> (s5, Some r, c))))"

section \<open>Observing a run\<close>

text \<open>The number of entries with \<^verbatim>\<open>passed == false\<close>.\<close>

definition failures :: "test_result list \<Rightarrow> nat" where
  "failures rs = length (filter (\<lambda>r. \<not> passed r) rs)"

text \<open>The calls into the host and the tests, the events of a test case, the requests sent.\<close>

fun is_host_call :: "event \<Rightarrow> bool" where
  "is_host_call CalledClearAsync = True"
| "is_host_call CalledBeforeEach = True"
| "is_host_call CalledReRender = True"
| "is_host_call (CalledBody d) = True"
| "is_host_call e = False"

fun is_case_event :: "event \<Rightarrow> bool" where
  "is_case_event (ConsoleLog m) = True"
| "is_case_event (ConsoleWarn m) = True"
| "is_case_event e = is_host_call e"

fun requests_of :: "event list \<Rightarrow> request list" where
  "requests_of [] = []"
| "requests_of (Fetched rq # evs) = rq # requests_of evs"
| "requests_of (ev # evs) = requests_of evs"

text \<open>The events after the line that logs the end of the suites (line 49).\<close>

fun after_stop :: "event list \<Rightarrow> event list" where
  "after_stop [] = []"
| "after_stop (LogStopped t d # evs) = evs"
| "after_stop (ev # evs) = after_stop evs"

text \<open>The bodies that were called, by description.\<close>

fun bodies_called :: "event list \<Rightarrow> string list" where
  "bodies_called [] = []"
| "bodies_called (CalledBody d # evs) = d # bodies_called evs"
| "bodies_called (ev # evs) = bodies_called evs"

text \<open>The test plan: the (suite, case) pairs in input order, suite by suite.\<close>

definition plan :: "'w test_scope list \<Rightarrow> ('w test_scope \<times> 'w test_case) list" where
  "plan scopes = concat (map (\<lambda>scope. map (Pair scope) (testCases scope)) scopes)"

text \<open>The calls one test case makes when all of them complete, in order.\<close>

definition case_calls :: "'w test_scope \<times> 'w test_case \<Rightarrow> event list" where
  "case_calls sc =
     [CalledClearAsync] @
     (case beforeEach (fst sc) of None \<Rightarrow> [] | Some hook \<Rightarrow> [CalledBeforeEach]) @
     [CalledReRender, CalledBody (description (snd sc))]"

text \<open>
  A result is the result of a test case when it carries the case's description: the
  success line of the case, or a failure line that starts as the case's failure lines do.
\<close>

definition error_prefix :: "string \<Rightarrow> string" where
  "error_prefix d = d @ ''  '' @ fail_mark @ [CHR 0x0A] @ ''   ''"

definition result_of :: "'w test_scope \<times> 'w test_case \<Rightarrow> test_result \<Rightarrow> bool" where
  "result_of sc r =
     (if passed r then message r = successMsg (description (snd sc))
      else prefix (error_prefix (description (snd sc))) (message r))"

text \<open>The state in which the probe's answer arrives, and the answer.\<close>

definition probed :: "'w globals \<Rightarrow> 'w runner \<Rightarrow> 'w runner" where
  "probed g s = fst (do_fetch g probe_request s)"

definition probe_answer :: "'w globals \<Rightarrow> 'w runner \<Rightarrow> fetch_outcome" where
  "probe_answer g s = snd (do_fetch g probe_request s)"

text \<open>The world in which the probe is sent: the one the loops over the suites leave.\<close>

definition world_after_suites :: "'w globals \<Rightarrow> 'w props \<Rightarrow> 'w \<Rightarrow> 'w" where
  "world_after_suites g p w =
     world (fst (runSuites (component p) (testSuites p) (emit (LogStarted (now g w)) (TestRunner w))))"

text \<open>The server's answer to the probe, sent in world \<open>w\<close>.\<close>

definition probe_response :: "'w globals \<Rightarrow> 'w \<Rightarrow> fetch_outcome" where
  "probe_response g w = snd (fetch g probe_request w)"

text \<open>
  The server's answer to the POST of the report, sent after a probe that was sent in world
  \<open>w\<close>.
\<close>

definition post_answer :: "'w globals \<Rightarrow> report \<Rightarrow> 'w \<Rightarrow> fetch_outcome" where
  "post_answer g r w = snd (fetch g (post_request r) (fst (fetch g probe_request w)))"

text \<open>The lines \<^verbatim>\<open>handleError\<close> writes to the console.\<close>

definition error_events :: "string \<Rightarrow> string \<Rightarrow> event list" where
  "error_events m u =
     trace (handleError m u \<lparr>world = (), testResults = [], this_errorCount = 0, trace = []\<rparr>)"

text \<open>
  Everything \<^verbatim>\<open>reportResults\<close> does that can be seen, for a probe sent in world \<open>w\<close>: the
  probe, then what its answer leads to.
\<close>

definition reporting_events :: "'w globals \<Rightarrow> report \<Rightarrow> 'w \<Rightarrow> event list" where
  "reporting_events g r w =
     Fetched probe_request #
     (case probe_response g w of
        Responds t \<Rightarrow>
          if t = ''cavy-cli running'' then
            Fetched (post_request r) #
            (case post_answer g r w of
               Responds t' \<Rightarrow> [ConsoleLog ''Cavy test report successfully sent to cavy-cli'']
             | Fails m \<Rightarrow> error_events m report_url
             | Hangs \<Rightarrow> [])
          else [ConsoleLog (skipping ''Unexpected response'')]
      | Fails m \<Rightarrow> [ConsoleLog (skipping m)]
      | Hangs \<Rightarrow> [])"

section \<open>Example runs\<close>

text \<open>
  A world that counts the calls it has seen, with a clock that advances a quarter of a
  second per call.
\<close>

definition ex_ok :: "nat \<Rightarrow> nat \<times> outcome" where
  "ex_ok w = (w + 1, Completes)"

definition ex_raise :: "thrown \<Rightarrow> nat \<Rightarrow> nat \<times> outcome" where
  "ex_raise e w = (w + 1, Raises e)"

definition ex_host :: "nat component" where
  "ex_host = \<lparr>clearAsync = ex_ok, reRender = ex_ok\<rparr>"

text \<open>
  A cavy-cli server that is running, another server on the same port, and a machine
  without one.
\<close>

definition ex_server :: "nat globals" where
  "ex_server =
     \<lparr>fetch = (\<lambda>rq w. (w + 1, if http_method rq = ''GET'' then Responds ''cavy-cli running'' else Responds [])),
      now = (\<lambda>w. 250 * int w)\<rparr>"

definition ex_other_server :: "nat globals" where
  "ex_other_server = \<lparr>fetch = (\<lambda>rq w. (w + 1, Responds ''It works!'')), now = (\<lambda>w. 250 * int w)\<rparr>"

definition ex_no_server :: "nat globals" where
  "ex_no_server = \<lparr>fetch = (\<lambda>rq w. (w + 1, Fails ''Network request failed'')), now = (\<lambda>w. 250 * int w)\<rparr>"

definition ex_case :: "string \<Rightarrow> (nat \<Rightarrow> nat \<times> outcome) \<Rightarrow> nat test_case" where
  "ex_case d b = \<lparr>description = d, f = b\<rparr>"

text \<open>The suites \<^verbatim>\<open>[S1{caseA(fails), caseB(passes)}, S2{caseC(passes)}]\<close>; S2 has a setup hook.\<close>

definition ex_suites :: "nat test_scope list" where
  "ex_suites =
     [\<lparr>testCases = [ex_case ''A'' (ex_raise (ThrownError ''boom'')), ex_case ''B'' ex_ok], beforeEach = None\<rparr>,
      \<lparr>testCases = [ex_case ''C'' ex_ok], beforeEach = Some ex_ok\<rparr>]"

text \<open>The same suites, with a setup hook in S2 that raises.\<close>

definition ex_suites_hook_raises :: "nat test_scope list" where
  "ex_suites_hook_raises =
     [\<lparr>testCases = [ex_case ''A'' (ex_raise (ThrownError ''boom'')), ex_case ''B'' ex_ok], beforeEach = None\<rparr>,
      \<lparr>testCases = [ex_case ''C'' ex_ok, ex_case ''D'' ex_ok],
       beforeEach = Some (ex_raise (ThrownError ''setup failed''))\<rparr>]"

text \<open>The same suites, with a case A whose body rejects with \<^verbatim>\<open>undefined\<close>.\<close>

definition ex_suites_nullish :: "nat test_scope list" where
  "ex_suites_nullish =
     [\<lparr>testCases = [ex_case ''A'' (ex_raise ThrownNullish), ex_case ''B'' ex_ok], beforeEach = None\<rparr>,
      \<lparr>testCases = [ex_case ''C'' ex_ok], beforeEach = Some ex_ok\<rparr>]"

definition ex_props :: "nat test_scope list \<Rightarrow> jsval \<Rightarrow> nat props" where
  "ex_props scopes sendReport =
     \<lparr>component = ex_host, testSuites = scopes, startDelay = JSUndefined, shouldSendReport = sendReport\<rparr>"

text \<open>The report of the run of \<open>ex_suites\<close>: ten calls, a quarter of a second each.\<close>

definition ex_report :: report where
  "ex_report =
     \<lparr>results = [\<lparr>message = errorMsg ''A'' ''boom'', passed = False\<rparr>,
                 \<lparr>message = successMsg ''B'', passed = True\<rparr>,
                 \<lparr>message = successMsg ''C'', passed = True\<rparr>],
      errorCount = 1, duration = 5 / 2\<rparr>"

text \<open>
  The effect of running (part of) the plan \<open>pl\<close> from \<open>s\<close> to \<open>s'\<close>: the results \<open>rs\<close> were
  pushed and the events \<open>evs\<close> seen. A fulfilled run has a result for every case of the
  plan; a run that was left early has results for the cases before the one it stopped in.
\<close>

definition run_effect ::
  "('w test_scope \<times> 'w test_case) list \<Rightarrow> 'w runner \<Rightarrow> 'w runner \<Rightarrow> completion \<Rightarrow>
   test_result list \<Rightarrow> event list \<Rightarrow> bool" where
  "run_effect pl s s' c rs evs \<longleftrightarrow>
     testResults s' = testResults s @ rs \<and> this_errorCount s' = this_errorCount s + failures rs \<and>
     trace s' = trace s @ evs \<and> list_all is_case_event evs \<and>
     list_all2 result_of (take (length rs) pl) rs \<and>
     prefix (filter is_host_call evs) (concat (map case_calls pl)) \<and>
     (if c = Fulfilled then length rs = length pl \<and> filter is_host_call evs = concat (map case_calls pl)
      else length rs < length pl)"

section \<open>Reading the payload back\<close>

text \<open>
  The reader on the other side of the POST: a JSON reader for texts without insignificant
  white space and without exponents in numbers (\<^verbatim>\<open>JSON.stringify\<close> writes neither). Where it
  returns a value, \<^verbatim>\<open>JSON.parse\<close> returns the same.
\<close>

datatype json =
    JNull | JBool bool | JNumber rat | JString string | JArray "json list" | JObject "(string \<times> json) list"

definition is_digit :: "char \<Rightarrow> bool" where
  "is_digit c \<longleftrightarrow> 48 \<le> (of_char c :: nat) \<and> (of_char c :: nat) \<le> 57"

definition digit_val :: "char \<Rightarrow> nat" where
  "digit_val c = of_char c - 48"

definition digits_val :: "string \<Rightarrow> nat" where
  "digits_val ds = foldl (\<lambda>n c. 10 * n + digit_val c) 0 ds"

definition hex_val :: "char \<Rightarrow> nat option" where
  "hex_val c =
     (let n = (of_char c :: nat)
      in if 48 \<le> n \<and> n \<le> 57 then Some (n - 48)
         else if 97 \<le> n \<and> n \<le> 102 then Some (n - 87)
         else if 65 \<le> n \<and> n \<le> 70 then Some (n - 55)
         else None)"

text \<open>The character a two-character escape stands for.\<close>

definition unescape :: "char \<Rightarrow> char option" where
  "unescape c =
     (if c = CHR ''b'' then Some (CHR 0x08)
      else if c = CHR ''t'' then Some (CHR 0x09)
      else if c = CHR ''n'' then Some (CHR 0x0A)
      else if c = CHR ''f'' then Some (CHR 0x0C)
      else if c = CHR ''r'' then Some (CHR 0x0D)
      else if c = CHR 0x22 then Some (CHR 0x22)
      else if c = CHR 0x5C then Some (CHR 0x5C)
      else if c = CHR ''/'' then Some (CHR ''/'')
      else None)"

text \<open>
  The characters of a string literal up to its closing quote, and the text after it. Of
  the \<^verbatim>\<open>\uXXXX\<close> escapes the reader takes those of one byte (below U+0080).
\<close>

fun unquote :: "string \<Rightarrow> (string \<times> string) option" where
  "unquote [] = None"
| "unquote (c # cs) =
     (if c = CHR 0x22 then Some ([], cs)
      else if c = CHR 0x5C then
        (case cs of
           [] \<Rightarrow> None
         | e # cs' \<Rightarrow>
             if e = CHR ''u'' then
               (case cs' of
                  h1 # h2 # h3 # h4 # rest \<Rightarrow>
                    (case (hex_val h1, hex_val h2, hex_val h3, hex_val h4) of
                       (Some a, Some b, Some c', Some d) \<Rightarrow>
                         if a = 0 \<and> b = 0 \<and> c' < 8
                         then map_option (\<lambda>(x, r). (char_of (16 * c' + d) # x, r)) (unquote rest)
                         else None
                     | _ \<Rightarrow> None)
                | _ \<Rightarrow> None)
             else
               (case unescape e of
                  None \<Rightarrow> None
                | Some x \<Rightarrow> map_option (\<lambda>(y, r). (x # y, r)) (unquote cs')))
      else if (of_char c :: nat) < 0x20 then None
      else map_option (\<lambda>(x, r). (c # x, r)) (unquote cs))"

text \<open>
  A number: an optional minus, the integer digits (no leading zero before another digit),
  an optional fraction.
\<close>

definition parse_number :: "string \<Rightarrow> (rat \<times> string) option" where
  "parse_number s =
     (let neg = (s \<noteq> [] \<and> hd s = CHR ''-'');
          s1 = (if neg then tl s else s);
          ip = takeWhile is_digit s1;
          s2 = dropWhile is_digit s1;
          sign = (if neg then - 1 else 1 :: rat)
      in if ip = [] \<or> (1 < length ip \<and> hd ip = CHR ''0'') then None
         else if s2 \<noteq> [] \<and> hd s2 = CHR ''.'' then
           (let fp = takeWhile is_digit (tl s2);
                s3 = dropWhile is_digit (tl s2)
            in if fp = [] then None
               else Some (sign * (of_nat (digits_val ip) + of_nat (digits_val fp) / 10 ^ length fp), s3))
         else Some (sign * of_nat (digits_val ip), s2))"

text \<open>
  A value, the elements of an array after its opening bracket, the members of an object
  after its opening brace. The first argument bounds the number of nested calls; the length
  of the text is enough.
\<close>

fun parse_value :: "nat \<Rightarrow> string \<Rightarrow> (json \<times> string) option"
  and parse_elements :: "nat \<Rightarrow> string \<Rightarrow> (json list \<times> string) option"
  and parse_members :: "nat \<Rightarrow> string \<Rightarrow> ((string \<times> json) list \<times> string) option" where
  "parse_value 0 s = None"
| "parse_value (Suc n) s =
     (if prefix ''null'' s then Some (JNull, drop 4 s)
      else if prefix ''true'' s then Some (JBool True, drop 4 s)
      else if prefix ''false'' s then Some (JBool False, drop 5 s)
      else
        (case s of
           [] \<Rightarrow> None
         | c # cs \<Rightarrow>
             if c = CHR 0x22 then map_option (\<lambda>(x, r). (JString x, r)) (unquote cs)
             else if c = CHR ''['' then
               (if cs \<noteq> [] \<and> hd cs = CHR '']'' then Some (JArray [], tl cs)
                else map_option (\<lambda>(vs, r). (JArray vs, r)) (parse_elements n cs))
             else if c = CHR ''{'' then
               (if cs \<noteq> [] \<and> hd cs = CHR ''}'' then Some (JObject [], tl cs)
                else map_option (\<lambda>(ms, r). (JObject ms, r)) (parse_members n cs))
             else map_option (\<lambda>(x, r). (JNumber x, r)) (parse_number s)))"
| "parse_elements 0 s = None"
| "parse_elements (Suc n) s =
     (case parse_value n s of
        None \<Rightarrow> None
      | Some (v, r) \<Rightarrow>
          if r \<noteq> [] \<and> hd r = CHR '','' then map_option (\<lambda>(vs, r'). (v # vs, r')) (parse_elements n (tl r))
          else if r \<noteq> [] \<and> hd r = CHR '']'' then Some ([v], tl r)
          else None)"
| "parse_members 0 s = None"
| "parse_members (Suc n) s =
     (if s \<noteq> [] \<and> hd s = CHR 0x22 then
        (case unquote (tl s) of
           None \<Rightarrow> None
         | Some (k, s2) \<Rightarrow>
             if s2 \<noteq> [] \<and> hd s2 = CHR '':'' then
               (case parse_value n (tl s2) of
                  None \<Rightarrow> None
                | Some (v, r) \<Rightarrow>
                    if r \<noteq> [] \<and> hd r = CHR '','' then
                      map_option (\<lambda>(ms, r'). ((k, v) # ms, r')) (parse_members n (tl r))
                    else if r \<noteq> [] \<and> hd r = CHR ''}'' then Some ([(k, v)], tl r)
                    else None)
             else None)
      else None)"

definition JSON_parse :: "string \<Rightarrow> json option" where
  "JSON_parse s = (case parse_value (length s) s of Some (v, []) \<Rightarrow> Some v | _ \<Rightarrow> None)"

text \<open>The object \<^verbatim>\<open>JSON.stringify\<close> walks, and the report a reader finds in such an object.\<close>

definition json_of_result :: "test_result \<Rightarrow> json" where
  "json_of_result r = JObject [(''message'', JString (message r)), (''passed'', JBool (passed r))]"

definition json_of_report :: "report \<Rightarrow> json" where
  "json_of_report r =
     JObject [(''results'', JArray (map json_of_result (results r))),
              (''errorCount'', JNumber (of_nat (errorCount r))),
              (''duration'', JNumber (duration r))]"

fun result_of_json :: "json \<Rightarrow> test_result option" where
  "result_of_json (JObject ms) =
     (case (map_of ms ''message'', map_of ms ''passed'') of
        (Some (JString m), Some (JBool b)) \<Rightarrow> Some \<lparr>message = m, passed = b\<rparr>
      | _ \<Rightarrow> None)"
| "result_of_json v = None"

definition nat_of_rat :: "rat \<Rightarrow> nat option" where
  "nat_of_rat x = (if 0 \<le> x \<and> of_int \<lfloor>x\<rfloor> = x then Some (nat \<lfloor>x\<rfloor>) else None)"

fun report_of_json :: "json \<Rightarrow> report option" where
  "report_of_json (JObject ms) =
     (case (map_of ms ''results'', map_of ms ''errorCount'', map_of ms ''duration'') of
        (Some (JArray vs), Some (JNumber n), Some (JNumber d)) \<Rightarrow>
          (case (those (map result_of_json vs), nat_of_rat n) of
             (Some rs, Some k) \<Rightarrow> Some \<lparr>results = rs, errorCount = k, duration = d\<rparr>
           | _ \<Rightarrow> None)
      | _ \<Rightarrow> None)"
| "report_of_json v = None"

section \<open>What a test case does to the runner\<close>

lemma emit_simps [simp]:
  "world (emit ev s) = world s"
  "testResults (emit ev s) = testResults s"
  "this_errorCount (emit ev s) = this_errorCount s"
  "trace (emit ev s) = trace s @ [ev]"
  by (simp_all add: emit_def)

lemma call_eq [simp]:
  "call ev h s = (s1, out) \<longleftrightarrow>
     s1 = emit ev (s\<lparr>world := fst (h (world s))\<rparr>) \<and> out = snd (h (world s))"
  by (auto simp: call_def split: prod.splits)

lemma call_fst_snd [simp]:
  "fst (call ev h s) = emit ev (s\<lparr>world := fst (h (world s))\<rparr>)"
  "snd (call ev h s) = snd (h (world s))"
  by (simp_all add: call_def split: prod.splits)

lemma do_fetch_eq [simp]:
  "do_fetch g rq s = (s1, out) \<longleftrightarrow>
     s1 = emit (Fetched rq) (s\<lparr>world := fst (fetch g rq (world s))\<rparr>) \<and> out = snd (fetch g rq (world s))"
  by (auto simp: do_fetch_def split: prod.splits)

lemma errorMsg_prefix: "errorMsg d m = error_prefix d @ m"
  by (simp add: errorMsg_def error_prefix_def)

lemma failures_simps [simp]:
  "failures [] = 0"
  "failures (rs @ rs') = failures rs + failures rs'"
  "failures [r] = (if passed r then 0 else 1)"
  by (simp_all add: failures_def)

lemma case_calls_are_case_events: "list_all is_case_event (case_calls sc)"
  by (simp add: case_calls_def split: option.splits)

lemma case_calls_all_host_calls: "list_all is_host_call (case_calls sc)"
  by (simp add: case_calls_def split: option.splits)

lemma case_calls_are_host_calls: "filter is_host_call (case_calls sc) = case_calls sc"
  using case_calls_all_host_calls[of sc] by (simp add: list_all_iff)

text \<open>The steps before the \<^verbatim>\<open>try\<close> touch neither the results nor the count.\<close>

lemma beforeTest_effect:
  assumes "beforeTest host scope s = (s', out)"
  shows "testResults s' = testResults s \<and> this_errorCount s' = this_errorCount s \<and>
         (\<exists>evs. trace s' = trace s @ evs \<and> evs \<noteq> [] \<and>
                 prefix evs (butlast (case_calls (scope, t))) \<and>
                 (out = Completes \<longrightarrow> evs = butlast (case_calls (scope, t))))"
  using assms
  by (auto simp: beforeTest_def case_calls_def split: prod.splits outcome.splits option.splits)

text \<open>The \<^verbatim>\<open>try\<close>/\<^verbatim>\<open>catch\<close>: a body that settles gives one result, unless the \<^verbatim>\<open>catch\<close> block raises.\<close>

lemma runBody_Fulfilled:
  assumes "runBody t s = (s', Fulfilled)"
  shows "\<exists>r. testResults s' = testResults s @ [r] \<and> result_of (scope, t) r \<and>
             this_errorCount s' = this_errorCount s + failures [r] \<and>
             trace s' = trace s @ [CalledBody (description t),
                                   if passed r then ConsoleLog (message r) else ConsoleWarn (message r)]"
  using assms
  by (auto simp: runBody_def Let_def result_of_def errorMsg_prefix
           split: prod.splits outcome.splits option.splits)

lemma runBody_unsettled:
  assumes "runBody t s = (s', c)" and "c \<noteq> Fulfilled"
  shows "testResults s' = testResults s \<and> this_errorCount s' = this_errorCount s \<and>
         trace s' = trace s @ [CalledBody (description t)]"
  using assms
  by (auto simp: runBody_def Let_def split: prod.splits outcome.splits option.splits)

lemma runTest_Fulfilled:
  assumes "runTest host scope t s = (s', Fulfilled)"
  shows "\<exists>r. testResults s' = testResults s @ [r] \<and> result_of (scope, t) r \<and>
             this_errorCount s' = this_errorCount s + failures [r] \<and>
             trace s' = trace s @ case_calls (scope, t) @
                          [if passed r then ConsoleLog (message r) else ConsoleWarn (message r)]"
proof -
  obtain s3 out where b: "beforeTest host scope s = (s3, out)"
    by (cases "beforeTest host scope s")
  with assms have out: "out = Completes" and body: "runBody t s3 = (s', Fulfilled)"
    by (auto simp: runTest_def split: outcome.splits)
  from beforeTest_effect[OF b, of t] out
  have s3: "testResults s3 = testResults s" "this_errorCount s3 = this_errorCount s"
    "trace s3 = trace s @ butlast (case_calls (scope, t))"
    by auto
  have cc: "butlast (case_calls (scope, t)) @ [CalledBody (description t)] = case_calls (scope, t)"
    by (simp add: case_calls_def butlast_append)
  from runBody_Fulfilled[OF body, of scope] obtain r where
    "testResults s' = testResults s3 @ [r]" "result_of (scope, t) r"
    "this_errorCount s' = this_errorCount s3 + failures [r]"
    "trace s' = trace s3 @ [CalledBody (description t),
                            if passed r then ConsoleLog (message r) else ConsoleWarn (message r)]"
    by blast
  with s3 cc have "testResults s' = testResults s @ [r] \<and> result_of (scope, t) r \<and>
             this_errorCount s' = this_errorCount s + failures [r] \<and>
             trace s' = trace s @ case_calls (scope, t) @
                          [if passed r then ConsoleLog (message r) else ConsoleWarn (message r)]"
    by (metis append.assoc append_Cons append_Nil)
  then show ?thesis by blast
qed

lemma runTest_unsettled:
  assumes "runTest host scope t s = (s', c)" and "c \<noteq> Fulfilled"
  shows "testResults s' = testResults s \<and> this_errorCount s' = this_errorCount s \<and>
         (\<exists>evs. trace s' = trace s @ evs \<and> evs \<noteq> [] \<and> prefix evs (case_calls (scope, t)))"
proof -
  obtain s3 out where b: "beforeTest host scope s = (s3, out)"
    by (cases "beforeTest host scope s")
  from beforeTest_effect[OF b, of t] obtain evs where
    s3: "testResults s3 = testResults s" "this_errorCount s3 = this_errorCount s"
        "trace s3 = trace s @ evs" "evs \<noteq> []" "prefix evs (butlast (case_calls (scope, t)))"
        "out = Completes \<longrightarrow> evs = butlast (case_calls (scope, t))"
    by blast
  have cc: "butlast (case_calls (scope, t)) @ [CalledBody (description t)] = case_calls (scope, t)"
    by (simp add: case_calls_def butlast_append)
  show ?thesis
  proof (cases "out = Completes")
    case True
    with assms b have body: "runBody t s3 = (s', c)"
      by (simp add: runTest_def)
    from runBody_unsettled[OF body assms(2)] s3 True
    have "testResults s' = testResults s" "this_errorCount s' = this_errorCount s"
         "trace s' = trace s @ (butlast (case_calls (scope, t)) @ [CalledBody (description t)])"
      by simp_all
    then have "testResults s' = testResults s" "this_errorCount s' = this_errorCount s"
         "trace s' = trace s @ case_calls (scope, t)"
      by (simp_all only: cc)
    moreover have "case_calls (scope, t) \<noteq> []" by (simp add: case_calls_def)
    ultimately show ?thesis by blast
  next
    case False
    with assms b have "s' = s3"
      by (auto simp: runTest_def split: outcome.splits)
    moreover have "prefix evs (case_calls (scope, t))"
      using s3(5) cc by (metis prefix_order.dual_order.trans prefixI)
    ultimately show ?thesis using s3 by blast
  qed
qed

section \<open>What the loops do to the runner\<close>

lemma run_effect_Nil: "run_effect [] s s Fulfilled [] []"
  by (simp add: run_effect_def)

lemma runTest_effect:
  assumes "runTest host scope t s = (s', c)"
  shows "\<exists>rs evs. run_effect [(scope, t)] s s' c rs evs"
proof (cases "c = Fulfilled")
  case True
  with assms obtain r where r: "testResults s' = testResults s @ [r]" "result_of (scope, t) r"
      "this_errorCount s' = this_errorCount s + failures [r]"
      "trace s' = trace s @ case_calls (scope, t) @
                   [if passed r then ConsoleLog (message r) else ConsoleWarn (message r)]"
    using runTest_Fulfilled by blast
  have "run_effect [(scope, t)] s s' c [r]
          (case_calls (scope, t) @ [if passed r then ConsoleLog (message r) else ConsoleWarn (message r)])"
    using r True by (simp add: run_effect_def case_calls_are_case_events case_calls_are_host_calls)
  then show ?thesis by blast
next
  case False
  with assms obtain evs where e: "testResults s' = testResults s"
      "this_errorCount s' = this_errorCount s" "trace s' = trace s @ evs"
      "prefix evs (case_calls (scope, t))"
    using runTest_unsettled by blast
  then obtain rest where rest: "case_calls (scope, t) = evs @ rest"
    by (auto simp: prefix_def)
  have "list_all is_case_event evs"
    using case_calls_are_case_events[of "(scope, t)"] by (simp add: rest)
  moreover have "list_all is_host_call evs"
    using case_calls_all_host_calls[of "(scope, t)"] by (simp add: rest)
  then have "filter is_host_call evs = evs"
    by (simp add: list_all_iff)
  ultimately have "run_effect [(scope, t)] s s' c [] evs"
    using e False by (simp add: run_effect_def)
  then show ?thesis by blast
qed

lemma run_effect_Fulfilled:
  assumes "run_effect pl s s' Fulfilled rs evs"
  shows "list_all2 result_of pl rs" and "filter is_host_call evs = concat (map case_calls pl)"
proof -
  from assms have "length rs = length pl"
    by (simp add: run_effect_def)
  moreover from assms[unfolded run_effect_def] have "list_all2 result_of (take (length rs) pl) rs"
    by blast
  ultimately show "list_all2 result_of pl rs" by simp
  from assms show "filter is_host_call evs = concat (map case_calls pl)"
    by (simp add: run_effect_def)
qed

lemma run_effect_stop:
  assumes "run_effect pl s s' c rs evs" and "c \<noteq> Fulfilled"
  shows "run_effect (pl @ pl') s s' c rs evs"
  using assms by (auto simp: run_effect_def)

lemma run_effect_seq:
  assumes "run_effect pl s s1 Fulfilled rs1 evs1" and "run_effect pl' s1 s' c rs evs"
  shows "run_effect (pl @ pl') s s' c (rs1 @ rs) (evs1 @ evs)"
  using assms by (auto simp: run_effect_def list_all2_appendI)

lemma runCases_effect:
  "runCases host scope ts s = (s', c) \<Longrightarrow> \<exists>rs evs. run_effect (map (Pair scope) ts) s s' c rs evs"
proof (induction ts arbitrary: s)
  case Nil
  then show ?case using run_effect_Nil by fastforce
next
  case (Cons t ts)
  obtain s1 c1 where st: "runTest host scope t s = (s1, c1)"
    by (cases "runTest host scope t s")
  from runTest_effect[OF st] obtain rs1 evs1 where e1: "run_effect [(scope, t)] s s1 c1 rs1 evs1"
    by blast
  show ?case
  proof (cases "c1 = Fulfilled")
    case True
    with Cons.prems st have "runCases host scope ts s1 = (s', c)" by simp
    from Cons.IH[OF this] obtain rs evs where "run_effect (map (Pair scope) ts) s1 s' c rs evs"
      by blast
    with e1 True have "run_effect ([(scope, t)] @ map (Pair scope) ts) s s' c (rs1 @ rs) (evs1 @ evs)"
      using run_effect_seq by blast
    then show ?thesis by auto
  next
    case False
    with Cons.prems st have "s' = s1" "c = c1" by (cases c1; simp)+
    with e1 False have "run_effect ([(scope, t)] @ map (Pair scope) ts) s s' c rs1 evs1"
      using run_effect_stop by blast
    then show ?thesis by auto
  qed
qed

lemma runSuites_effect:
  "runSuites host scopes s = (s', c) \<Longrightarrow> \<exists>rs evs. run_effect (plan scopes) s s' c rs evs"
proof (induction scopes arbitrary: s)
  case Nil
  then show ?case using run_effect_Nil by (fastforce simp: plan_def)
next
  case (Cons scope scopes)
  have pl: "plan (scope # scopes) = map (Pair scope) (testCases scope) @ plan scopes"
    by (simp add: plan_def)
  obtain s1 c1 where st: "runCases host scope (testCases scope) s = (s1, c1)"
    by (cases "runCases host scope (testCases scope) s")
  from runCases_effect[OF st] obtain rs1 evs1
    where e1: "run_effect (map (Pair scope) (testCases scope)) s s1 c1 rs1 evs1"
    by blast
  show ?case
  proof (cases "c1 = Fulfilled")
    case True
    with Cons.prems st have "runSuites host scopes s1 = (s', c)" by simp
    from Cons.IH[OF this] obtain rs evs where "run_effect (plan scopes) s1 s' c rs evs"
      by blast
    with e1 True have "run_effect (plan (scope # scopes)) s s' c (rs1 @ rs) (evs1 @ evs)"
      unfolding pl using run_effect_seq by blast
    then show ?thesis by blast
  next
    case False
    with Cons.prems st have "s' = s1" "c = c1" by (cases c1; simp)+
    with e1 False have "run_effect (plan (scope # scopes)) s s' c rs1 evs1"
      unfolding pl using run_effect_stop by blast
    then show ?thesis by blast
  qed
qed

lemma length_plan: "length (plan scopes) = sum_list (map (\<lambda>scope. length (testCases scope)) scopes)"
  by (induction scopes) (simp_all add: plan_def)

section \<open>What reporting does to the runner\<close>

lemma requests_of_append [simp]: "requests_of (evs @ evs') = requests_of evs @ requests_of evs'"
  by (induction evs rule: requests_of.induct) simp_all

lemma bodies_called_append [simp]: "bodies_called (evs @ evs') = bodies_called evs @ bodies_called evs'"
  by (induction evs rule: bodies_called.induct) simp_all

lemma bodies_called_filter: "bodies_called (filter is_host_call evs) = bodies_called evs"
  by (induction evs rule: bodies_called.induct) simp_all

lemma bodies_called_case_calls:
  "bodies_called (concat (map case_calls pl)) = map (description \<circ> snd) pl"
  by (induction pl) (simp_all add: case_calls_def split: option.splits)

lemma case_events_request_nothing: "list_all is_case_event evs \<Longrightarrow> requests_of evs = []"
  by (induction evs rule: requests_of.induct) simp_all

lemma handleError_effect:
  "\<exists>evs. trace (handleError m u s) = trace s @ evs \<and> filter is_host_call evs = [] \<and> requests_of evs = []"
  by (simp add: handleError_def)

lemma handleError_fields [simp]:
  "testResults (handleError m u s) = testResults s"
  "this_errorCount (handleError m u s) = this_errorCount s"
  by (simp_all add: handleError_def)

lemma send_effect:
  "\<exists>evs. trace (fst (send g r s)) = trace s @ Fetched (post_request r) # evs \<and>
         filter is_host_call evs = [] \<and> requests_of evs = []"
proof (cases "snd (fetch g (post_request r) (world s))")
  case (Fails m)
  obtain evs where
    "trace (handleError m report_url (emit (Fetched (post_request r))
        (s\<lparr>world := fst (fetch g (post_request r) (world s))\<rparr>))) =
     trace (emit (Fetched (post_request r)) (s\<lparr>world := fst (fetch g (post_request r) (world s))\<rparr>)) @ evs"
    "filter is_host_call evs = []" "requests_of evs = []"
    using handleError_effect by blast
  with Fails show ?thesis
    by (simp add: send_def split: prod.splits)
qed (simp_all add: send_def split: prod.splits)

lemma send_never_rejects: "snd (send g r s) \<noteq> Rejected e"
  by (simp add: send_def split: prod.splits fetch_outcome.splits)

lemma probed_eq: "probed g s = emit (Fetched probe_request) (s\<lparr>world := fst (fetch g probe_request (world s))\<rparr>)"
  by (simp add: probed_def do_fetch_def split: prod.splits)

lemma probe_answer_eq: "probe_answer g s = snd (fetch g probe_request (world s))"
  by (simp add: probe_answer_def do_fetch_def split: prod.splits)

text \<open>The requests of \<^verbatim>\<open>reportResults\<close>: the probe, and the report when the probe's answer is the expected one.\<close>

lemma reportResults_effect:
  "\<exists>evs. trace (fst (reportResults g r s)) = trace s @ Fetched probe_request # evs \<and>
         filter is_host_call evs = [] \<and>
         requests_of evs = (if probe_answer g s = Responds ''cavy-cli running'' then [post_request r] else [])"
proof (cases "probe_answer g s = Responds ''cavy-cli running''")
  case True
  then have "reportResults g r s = send g r (probed g s)"
    by (simp add: reportResults_def probe_answer_eq probed_eq split: prod.splits)
  moreover have "trace (probed g s) = trace s @ [Fetched probe_request]"
    by (simp add: probed_eq)
  ultimately show ?thesis
    using send_effect[of g r "probed g s"] True by auto
next
  case False
  then show ?thesis
    by (auto simp: reportResults_def probe_answer_eq split: prod.splits fetch_outcome.splits)
qed

lemma reportResults_never_rejects: "snd (reportResults g r s) \<noteq> Rejected e"
  by (auto simp: reportResults_def send_never_rejects split: prod.splits fetch_outcome.splits)

section \<open>The runs that compile a report\<close>

text \<open>A report is compiled exactly when the loops are fulfilled, from the state they end in.\<close>

lemma runTestSuites_compiled:
  assumes "runTestSuites g p s0 = (s, Some r, c)"
  shows "\<exists>s2 evs. runSuites (component p) (testSuites p) (emit (LogStarted (now g (world s0))) s0) = (s2, Fulfilled) \<and>
           results r = testResults s2 \<and> errorCount r = this_errorCount s2 \<and>
           duration r = of_int (now g (world s2) - now g (world s0)) / 1000 \<and>
           trace s = trace s2 @ LogStopped (now g (world s2)) (duration r) # evs \<and>
           filter is_host_call evs = []"
proof -
  obtain s2 c2 where loops:
      "runSuites (component p) (testSuites p) (emit (LogStarted (now g (world s0))) s0) = (s2, c2)"
    by (cases "runSuites (component p) (testSuites p) (emit (LogStarted (now g (world s0))) s0)")
  with assms have c2: "c2 = Fulfilled"
    by (cases c2) (simp_all add: runTestSuites_def Let_def)
  define d :: rat where "d = of_int (now g (world s2) - now g (world s0)) / 1000"
  define s3 where "s3 = emit (LogStopped (now g (world s2)) d) s2"
  have r: "r = compile_report s3 d"
    using assms loops c2
    by (auto simp: runTestSuites_def Let_def d_def s3_def split: if_splits prod.splits)
  have "s = emit (ConsoleWarn deprecation_warning) s3 \<or>
        s = fst (reportResults g r (emit (ConsoleWarn deprecation_warning) s3)) \<or>
        s = fst (reportResults g r s3)"
    using assms loops c2
    by (auto simp: runTestSuites_def Let_def d_def s3_def split: if_splits prod.splits)
  then have "\<exists>evs. trace s = trace s3 @ evs \<and> filter is_host_call evs = []"
  proof (elim disjE)
    assume "s = emit (ConsoleWarn deprecation_warning) s3"
    then show ?thesis by simp
  next
    assume s: "s = fst (reportResults g r (emit (ConsoleWarn deprecation_warning) s3))"
    from reportResults_effect[of g r "emit (ConsoleWarn deprecation_warning) s3"] obtain evs where
      "trace s = trace (emit (ConsoleWarn deprecation_warning) s3) @ Fetched probe_request # evs"
      "filter is_host_call evs = []"
      unfolding s by blast
    then have "trace s = trace s3 @ (ConsoleWarn deprecation_warning # Fetched probe_request # evs) \<and>
               filter is_host_call (ConsoleWarn deprecation_warning # Fetched probe_request # evs) = []"
      by simp
    then show ?thesis by blast
  next
    assume s: "s = fst (reportResults g r s3)"
    from reportResults_effect[of g r s3] obtain evs where
      "trace s = trace s3 @ Fetched probe_request # evs" "filter is_host_call evs = []"
      unfolding s by blast
    then have "trace s = trace s3 @ (Fetched probe_request # evs) \<and>
               filter is_host_call (Fetched probe_request # evs) = []"
      by simp
    then show ?thesis by blast
  qed
  then obtain evs where "trace s = trace s3 @ evs" "filter is_host_call evs = []"
    by blast
  with r loops c2 show ?thesis
    by (auto simp: compile_report_def s3_def d_def)
qed

text \<open>
  From whatever state the runner is in, a run that compiles a report has appended one
  result per case of the plan and counted the failed ones among them. (A runner is built
  for one run: \<^verbatim>\<open>runTestSuites\<close> does not reset \<^verbatim>\<open>testResults\<close> and \<^verbatim>\<open>errorCount\<close>, so a second
  run on the same object would add to what the first left.)
\<close>

lemma report_from_any_state:
  assumes "runTestSuites g p s0 = (s, Some r, c)"
  shows "\<exists>rs. results r = testResults s0 @ rs \<and> list_all2 result_of (plan (testSuites p)) rs \<and>
              errorCount r = this_errorCount s0 + failures rs"
proof -
  from runTestSuites_compiled[OF assms] obtain s2 where
    loops: "runSuites (component p) (testSuites p) (emit (LogStarted (now g (world s0))) s0) = (s2, Fulfilled)"
    and r: "results r = testResults s2" "errorCount r = this_errorCount s2"
    by blast
  from runSuites_effect[OF loops] obtain rs evs where
    e: "run_effect (plan (testSuites p)) (emit (LogStarted (now g (world s0))) s0) s2 Fulfilled rs evs"
    by blast
  then have "testResults s2 = testResults s0 @ rs" "this_errorCount s2 = this_errorCount s0 + failures rs"
    by (simp_all add: run_effect_def)
  with r run_effect_Fulfilled(1)[OF e] show ?thesis by auto
qed

text \<open>The loops of a run started on a new runner, as an effect on the plan.\<close>

lemma new_runner_loops:
  assumes "runSuites (component p) (testSuites p) (emit (LogStarted t0) (TestRunner w)) = (s2, c2)"
  shows "\<exists>evs. run_effect (plan (testSuites p)) (emit (LogStarted t0) (TestRunner w)) s2 c2 (testResults s2) evs \<and>
           this_errorCount s2 = failures (testResults s2) \<and> trace s2 = LogStarted t0 # evs"
proof -
  from runSuites_effect[OF assms] obtain rs evs where
    e: "run_effect (plan (testSuites p)) (emit (LogStarted t0) (TestRunner w)) s2 c2 rs evs"
    by blast
  then have "testResults s2 = rs" "this_errorCount s2 = failures rs" "trace s2 = LogStarted t0 # evs"
    by (simp_all add: run_effect_def TestRunner_def)
  with e show ?thesis by blast
qed

section \<open>The example runs, evaluated\<close>

lemmas run_defs =
  runTestSuites_def runTest_def beforeTest_def runBody_def call_def do_fetch_def emit_def
  compile_report_def reportResults_def send_def handleError_def TestRunner_def Let_def
  ex_props_def ex_host_def ex_case_def ex_ok_def ex_raise_def ex_server_def ex_no_server_def
  ex_other_server_def
  probe_request_def post_request_def

lemma ex_run_report:
  "fst (snd (runTestSuites ex_server (ex_props ex_suites JSUndefined) (TestRunner 0))) = Some ex_report"
  by (simp add: run_defs ex_suites_def ex_report_def)

lemma ex_run_calls:
  "filter is_host_call (trace (fst (runTestSuites ex_server (ex_props ex_suites JSUndefined) (TestRunner 0)))) =
     [CalledClearAsync, CalledReRender, CalledBody ''A'',
      CalledClearAsync, CalledReRender, CalledBody ''B'',
      CalledClearAsync, CalledBeforeEach, CalledReRender, CalledBody ''C'']"
  by (simp add: run_defs ex_suites_def)

section \<open>The report\<close>

text \<open>
  C3. Whenever the run of a new runner compiles a report, the report's \<^verbatim>\<open>errorCount\<close> is the
  number of entries of its \<^verbatim>\<open>results\<close> with \<^verbatim>\<open>passed == false\<close>.
\<close>

theorem report_errorCount_counts_failed_results:
  assumes "runTestSuites g p (TestRunner w) = (s, Some r, c)"
  shows "errorCount r = length (filter (\<lambda>x. \<not> passed x) (results r))"
proof -
  from runTestSuites_compiled[OF assms] obtain s2 where
    loops: "runSuites (component p) (testSuites p) (emit (LogStarted (now g (world (TestRunner w)))) (TestRunner w)) = (s2, Fulfilled)"
    and r: "results r = testResults s2" "errorCount r = this_errorCount s2"
    by blast
  from new_runner_loops[OF loops] have "this_errorCount s2 = failures (testResults s2)"
    by blast
  with r show ?thesis by (simp add: failures_def)
qed

theorem report_errorCount_counts_failed_results_witness:
  "fst (snd (runTestSuites ex_server (ex_props ex_suites JSUndefined) (TestRunner 0))) = Some ex_report \<and>
   errorCount ex_report = length (filter (\<lambda>x. \<not> passed x) (results ex_report)) \<and>
   errorCount ex_report = 1"
proof -
  have run: "runTestSuites ex_server (ex_props ex_suites JSUndefined) (TestRunner 0) =
      (fst (runTestSuites ex_server (ex_props ex_suites JSUndefined) (TestRunner 0)), Some ex_report,
       snd (snd (runTestSuites ex_server (ex_props ex_suites JSUndefined) (TestRunner 0))))"
    using ex_run_report by (simp add: prod_eq_iff)
  from report_errorCount_counts_failed_results[OF run] ex_run_report show ?thesis
    by (simp add: ex_report_def)
qed

text \<open>
  C4. Whenever the run of a new runner compiles a report, its \<^verbatim>\<open>results\<close> has one entry per
  test case of the suites, whatever passed or failed.
\<close>

theorem report_results_length_is_number_of_cases:
  assumes "runTestSuites g p (TestRunner w) = (s, Some r, c)"
  shows "length (results r) = sum_list (map (\<lambda>scope. length (testCases scope)) (testSuites p))"
proof -
  from runTestSuites_compiled[OF assms] obtain s2 where
    loops: "runSuites (component p) (testSuites p) (emit (LogStarted (now g (world (TestRunner w)))) (TestRunner w)) = (s2, Fulfilled)"
    and r: "results r = testResults s2"
    by blast
  from new_runner_loops[OF loops] have "length (testResults s2) = length (plan (testSuites p))"
    by (auto simp: run_effect_def)
  with r show ?thesis by (simp add: length_plan)
qed

theorem report_results_length_is_number_of_cases_witness:
  "fst (snd (runTestSuites ex_no_server (ex_props ex_suites (JSBool True)) (TestRunner 0))) = Some ex_report \<and>
   length (results ex_report) = sum_list (map (\<lambda>scope. length (testCases scope)) ex_suites) \<and>
   length (results ex_report) = 3"
proof -
  have rep: "fst (snd (runTestSuites ex_no_server (ex_props ex_suites (JSBool True)) (TestRunner 0))) = Some ex_report"
    by (simp add: run_defs ex_suites_def ex_report_def)
  then have run: "runTestSuites ex_no_server (ex_props ex_suites (JSBool True)) (TestRunner 0) =
      (fst (runTestSuites ex_no_server (ex_props ex_suites (JSBool True)) (TestRunner 0)), Some ex_report,
       snd (snd (runTestSuites ex_no_server (ex_props ex_suites (JSBool True)) (TestRunner 0))))"
    by (simp add: prod_eq_iff)
  from report_results_length_is_number_of_cases[OF run] rep show ?thesis
    by (simp add: ex_report_def ex_props_def)
qed

text \<open>
  C5. Whenever the run of a new runner compiles a report, the results stand in the order
  of the plan (the suites in input order, the cases of each suite in input order), the
  \<open>i\<close>-th result being that of the \<open>i\<close>-th case; and the calls made during the run are the
  calls of the first case, then those of the second, and so on: each case is finished
  before the next is started.
\<close>

theorem results_in_plan_order:
  assumes "runTestSuites g p (TestRunner w) = (s, Some r, c)"
  shows "list_all2 result_of (plan (testSuites p)) (results r) \<and>
         filter is_host_call (trace s) = concat (map case_calls (plan (testSuites p)))"
proof -
  from runTestSuites_compiled[OF assms] obtain s2 post where
    loops: "runSuites (component p) (testSuites p) (emit (LogStarted (now g (world (TestRunner w)))) (TestRunner w)) = (s2, Fulfilled)"
    and r: "results r = testResults s2"
    and tr: "trace s = trace s2 @ LogStopped (now g (world s2)) (duration r) # post"
            "filter is_host_call post = []"
    by blast
  from new_runner_loops[OF loops] obtain evs where
    e: "run_effect (plan (testSuites p)) (emit (LogStarted (now g (world (TestRunner w)))) (TestRunner w))
          s2 Fulfilled (testResults s2) evs"
    and tr2: "trace s2 = LogStarted (now g (world (TestRunner w))) # evs"
    by blast
  from e have "list_all2 result_of (plan (testSuites p)) (testResults s2)"
    and "filter is_host_call evs = concat (map case_calls (plan (testSuites p)))"
    by (rule run_effect_Fulfilled)+
  with r tr tr2 show ?thesis by simp
qed

theorem results_in_plan_order_witness:
  "list_all2 result_of (plan ex_suites) (results ex_report) \<and>
   filter is_host_call (trace (fst (runTestSuites ex_server (ex_props ex_suites JSUndefined) (TestRunner 0)))) =
     concat (map case_calls (plan ex_suites)) \<and>
   bodies_called (concat (map case_calls (plan ex_suites))) = [''A'', ''B'', ''C'']"
proof -
  have run: "runTestSuites ex_server (ex_props ex_suites JSUndefined) (TestRunner 0) =
      (fst (runTestSuites ex_server (ex_props ex_suites JSUndefined) (TestRunner 0)), Some ex_report,
       snd (snd (runTestSuites ex_server (ex_props ex_suites JSUndefined) (TestRunner 0))))"
    using ex_run_report by (simp add: prod_eq_iff)
  have "bodies_called (concat (map case_calls (plan ex_suites))) = [''A'', ''B'', ''C'']"
    by (simp add: plan_def ex_suites_def case_calls_def ex_case_def)
  with results_in_plan_order[OF run] show ?thesis
    by (simp add: ex_props_def)
qed

section \<open>Failures of a test case\<close>

lemma runCases_append:
  "runCases host scope (ts @ ts') s =
     (case runCases host scope ts s of
        (s1, Fulfilled) \<Rightarrow> runCases host scope ts' s1
      | (s1, Rejected e) \<Rightarrow> (s1, Rejected e)
      | (s1, Pending) \<Rightarrow> (s1, Pending))"
  by (induction ts arbitrary: s) (auto split: prod.splits completion.splits)

lemma runSuites_append:
  "runSuites host (scopes @ scopes') s =
     (case runSuites host scopes s of
        (s1, Fulfilled) \<Rightarrow> runSuites host scopes' s1
      | (s1, Rejected e) \<Rightarrow> (s1, Rejected e)
      | (s1, Pending) \<Rightarrow> (s1, Pending))"
  by (induction scopes arbitrary: s) (auto split: prod.splits completion.splits)

text \<open>A rejection of \<^verbatim>\<open>runTest\<close> anywhere in the plan is the rejection of \<^verbatim>\<open>runTestSuites\<close>.\<close>

lemma rejection_ends_the_run:
  assumes "testSuites p = pre @ scope # post" and "testCases scope = tpre @ t # tpost"
    and "runSuites (component p) pre (emit (LogStarted (now g (world s0))) s0) = (s1, Fulfilled)"
    and "runCases (component p) scope tpre s1 = (s, Fulfilled)"
    and "runTest (component p) scope t s = (s', Rejected e)"
  shows "runTestSuites g p s0 = (s', None, Rejected e)"
proof -
  have "runCases (component p) scope (testCases scope) s1 = (s', Rejected e)"
    using assms(2,4,5) by (simp add: runCases_append)
  then have "runSuites (component p) (testSuites p) (emit (LogStarted (now g (world s0))) s0) = (s', Rejected e)"
    using assms(1,3) by (simp add: runSuites_append)
  then show ?thesis
    by (simp add: runTestSuites_def Let_def)
qed

text \<open>
  A body that raises a value whose message can be read is caught: the failed result is
  pushed, the count goes up, \<^verbatim>\<open>runTest\<close> is fulfilled and the loop goes on with the next case.
\<close>

lemma body_failure_is_contained:
  assumes "beforeTest host scope s = (s3, Completes)"
    and "snd (f t (world s3)) = Raises e" and "message_of e = Some m"
  shows "\<exists>s'. runTest host scope t s = (s', Fulfilled) \<and>
              testResults s' = testResults s @ [\<lparr>message = errorMsg (description t) m, passed = False\<rparr>] \<and>
              this_errorCount s' = this_errorCount s + 1 \<and>
              runCases host scope (t # ts) s = runCases host scope ts s'"
proof -
  from beforeTest_effect[OF assms(1), of t]
  have s3: "testResults s3 = testResults s" "this_errorCount s3 = this_errorCount s"
    by auto
  define s' where "s' = fst (runBody t s3)"
  have body: "runBody t s3 = (s', Fulfilled)"
    using assms(2,3) by (simp add: s'_def runBody_def Let_def split: prod.splits)
  have "testResults s' = testResults s3 @ [\<lparr>message = errorMsg (description t) m, passed = False\<rparr>]"
    and "this_errorCount s' = this_errorCount s3 + 1"
    using assms(2,3) by (simp_all add: s'_def runBody_def Let_def split: prod.splits)
  moreover have "runTest host scope t s = (s', Fulfilled)"
    using assms(1) body by (simp add: runTest_def)
  ultimately show ?thesis using s3 by simp
qed

text \<open>The suites of the specification's example: A fails, B and C pass, one error is counted.\<close>

lemma example_of_the_specification:
  "fst (snd (runTestSuites ex_no_server (ex_props ex_suites JSUndefined) (TestRunner 0))) = Some ex_report \<and>
   map passed (results ex_report) = [False, True, True] \<and> errorCount ex_report = 1 \<and>
   bodies_called (trace (fst (runTestSuites ex_no_server (ex_props ex_suites JSUndefined) (TestRunner 0)))) =
     [''A'', ''B'', ''C'']"
  by (simp add: run_defs ex_suites_def ex_report_def)

text \<open>
  C1. A body that rejects with \<^verbatim>\<open>undefined\<close> (or \<^verbatim>\<open>null\<close>) is not contained: in the \<^verbatim>\<open>catch\<close>
  block \<^verbatim>\<open>e.message\<close> raises, \<^verbatim>\<open>runTest\<close> rejects and so does \<^verbatim>\<open>runTestSuites\<close>. With the suites
  of the example and such a body for case A, no result is recorded, nothing is counted,
  B and C are never run and no report is compiled.
\<close>

theorem nullish_body_failure_escapes:
  "runTestSuites ex_no_server (ex_props ex_suites_nullish JSUndefined) (TestRunner 0) =
     (\<lparr>world = 3, testResults = [], this_errorCount = 0,
       trace = [LogStarted 0, CalledClearAsync, CalledReRender, CalledBody ''A'']\<rparr>,
      None, Rejected message_read_error)"
  by (simp add: run_defs ex_suites_nullish_def)

text \<open>
  C2. A setup hook that raises is not caught with the body: \<^verbatim>\<open>beforeEach\<close> is called before
  the \<^verbatim>\<open>try\<close>. \<^verbatim>\<open>runTest\<close> rejects with what the hook raised, right after the call of the hook:
  no result is pushed, the count stays, the component is not re-rendered, the body is not
  called. The rejection leaves both loops of \<^verbatim>\<open>runTestSuites\<close>, which rejects in the state
  \<^verbatim>\<open>runTest\<close> ended in, without a report: nothing is run, logged or sent after the hook.
\<close>

theorem setup_hook_failure_ends_the_run:
  assumes "testSuites p = pre @ scope # post" and "testCases scope = tpre @ t # tpost"
    and "runSuites (component p) pre (emit (LogStarted (now g (world s0))) s0) = (s1, Fulfilled)"
    and "runCases (component p) scope tpre s1 = (s, Fulfilled)"
    and "beforeEach scope = Some hook"
    and "snd (clearAsync (component p) (world s)) = Completes"
    and "snd (hook (fst (clearAsync (component p) (world s)))) = Raises e"
  shows "\<exists>s'. runTest (component p) scope t s = (s', Rejected e) \<and>
              testResults s' = testResults s \<and> this_errorCount s' = this_errorCount s \<and>
              trace s' = trace s @ [CalledClearAsync, CalledBeforeEach] \<and>
              runTestSuites g p s0 = (s', None, Rejected e)"
proof -
  define s' where "s' = fst (runTest (component p) scope t s)"
  have rt: "runTest (component p) scope t s = (s', Rejected e)"
    using assms(5-7) by (simp add: s'_def runTest_def beforeTest_def split: prod.splits)
  have "testResults s' = testResults s" "this_errorCount s' = this_errorCount s"
    "trace s' = trace s @ [CalledClearAsync, CalledBeforeEach]"
    using assms(5-7) by (simp_all add: s'_def runTest_def beforeTest_def split: prod.splits)
  moreover have "runTestSuites g p s0 = (s', None, Rejected e)"
    using rejection_ends_the_run[OF assms(1-4) rt] .
  ultimately show ?thesis using rt by blast
qed

theorem setup_hook_failure_ends_the_run_witness:
  "runTestSuites ex_no_server (ex_props ex_suites_hook_raises JSUndefined) (TestRunner 0) =
     (\<lparr>world = 8,
       testResults = [\<lparr>message = errorMsg ''A'' ''boom'', passed = False\<rparr>,
                      \<lparr>message = successMsg ''B'', passed = True\<rparr>],
       this_errorCount = 1,
       trace = [LogStarted 0,
                CalledClearAsync, CalledReRender, CalledBody ''A'', ConsoleWarn (errorMsg ''A'' ''boom''),
                CalledClearAsync, CalledReRender, CalledBody ''B'', ConsoleLog (successMsg ''B''),
                CalledClearAsync, CalledBeforeEach]\<rparr>,
      None, Rejected (ThrownError ''setup failed''))"
proof -
  let ?p = "ex_props ex_suites_hook_raises JSUndefined"
  let ?S1 = "\<lparr>testCases = [ex_case ''A'' (ex_raise (ThrownError ''boom'')), ex_case ''B'' ex_ok],
              beforeEach = None :: (nat \<Rightarrow> nat \<times> outcome) option\<rparr>"
  let ?S2 = "\<lparr>testCases = [ex_case ''C'' ex_ok, ex_case ''D'' ex_ok],
              beforeEach = Some (ex_raise (ThrownError ''setup failed''))\<rparr>"
  let ?s = "\<lparr>world = 6 :: nat,
       testResults = [\<lparr>message = errorMsg ''A'' ''boom'', passed = False\<rparr>,
                      \<lparr>message = successMsg ''B'', passed = True\<rparr>],
       this_errorCount = 1,
       trace = [LogStarted 0,
                CalledClearAsync, CalledReRender, CalledBody ''A'', ConsoleWarn (errorMsg ''A'' ''boom''),
                CalledClearAsync, CalledReRender, CalledBody ''B'', ConsoleLog (successMsg ''B'')]\<rparr>"
  have 1: "testSuites ?p = [?S1] @ ?S2 # []"
    by (simp add: ex_props_def ex_suites_hook_raises_def)
  have 2: "testCases ?S2 = [] @ ex_case ''C'' ex_ok # [ex_case ''D'' ex_ok]"
    by simp
  have 3: "runSuites (component ?p) [?S1] (emit (LogStarted (now ex_no_server (world (TestRunner 0)))) (TestRunner 0)) =
             (?s, Fulfilled)"
    by (simp add: run_defs)
  have 4: "runCases (component ?p) ?S2 [] ?s = (?s, Fulfilled)"
    by simp
  have 5: "beforeEach ?S2 = Some (ex_raise (ThrownError ''setup failed''))"
    by simp
  have 6: "snd (clearAsync (component ?p) (world ?s)) = Completes"
    by (simp add: run_defs)
  have 7: "snd (ex_raise (ThrownError ''setup failed'') (fst (clearAsync (component ?p) (world ?s)))) =
             Raises (ThrownError ''setup failed'')"
    by (simp add: run_defs)
  from setup_hook_failure_ends_the_run[OF 1 2 3 4 5 6 7]
  obtain s' where "trace s' = trace ?s @ [CalledClearAsync, CalledBeforeEach]"
    and "runTestSuites ex_no_server ?p (TestRunner 0) = (s', None, Rejected (ThrownError ''setup failed''))"
    by blast
  moreover have "fst (runTestSuites ex_no_server ?p (TestRunner 0)) =
     \<lparr>world = 8,
       testResults = [\<lparr>message = errorMsg ''A'' ''boom'', passed = False\<rparr>,
                      \<lparr>message = successMsg ''B'', passed = True\<rparr>],
       this_errorCount = 1,
       trace = [LogStarted 0,
                CalledClearAsync, CalledReRender, CalledBody ''A'', ConsoleWarn (errorMsg ''A'' ''boom''),
                CalledClearAsync, CalledReRender, CalledBody ''B'', ConsoleLog (successMsg ''B''),
                CalledClearAsync, CalledBeforeEach]\<rparr>"
    by (simp add: run_defs ex_suites_hook_raises_def)
  ultimately show ?thesis by simp
qed

text \<open>
  That a hook failure is recorded like a failure of the body does not hold on that run:
  the hook of suite S2 raises before case C, and there is no failed result for C (the
  results are those of A and B), the count is still 1, and the run does not continue with
  case D.
\<close>

theorem setup_hook_failure_not_recorded_counterexample:
  "testResults (fst (runTestSuites ex_no_server (ex_props ex_suites_hook_raises JSUndefined) (TestRunner 0))) =
     [\<lparr>message = errorMsg ''A'' ''boom'', passed = False\<rparr>, \<lparr>message = successMsg ''B'', passed = True\<rparr>] \<and>
   this_errorCount (fst (runTestSuites ex_no_server (ex_props ex_suites_hook_raises JSUndefined) (TestRunner 0))) = 1 \<and>
   bodies_called (trace (fst (runTestSuites ex_no_server (ex_props ex_suites_hook_raises JSUndefined) (TestRunner 0)))) =
     [''A'', ''B''] \<and>
   snd (runTestSuites ex_no_server (ex_props ex_suites_hook_raises JSUndefined) (TestRunner 0)) =
     (None, Rejected (ThrownError ''setup failed''))"
  by (simp add: run_defs ex_suites_hook_raises_def)

text \<open>
  When the host's two operations and the setup hooks always complete and the bodies
  complete or raise values whose message can be read, no failure stops the run: every
  \<^verbatim>\<open>runTest\<close> is fulfilled, so are the loops, and the report is compiled.
\<close>

lemma runTest_fulfils:
  assumes "\<And>w. snd (clearAsync host w) = Completes" and "\<And>w. snd (reRender host w) = Completes"
    and "\<And>hook w. beforeEach scope = Some hook \<Longrightarrow> snd (hook w) = Completes"
    and "\<And>w. snd (f t w) = Completes \<or> (\<exists>e m. snd (f t w) = Raises e \<and> message_of e = Some m)"
  shows "snd (runTest host scope t s) = Fulfilled"
proof -
  have "snd (beforeTest host scope s) = Completes"
    using assms(1-3) by (auto simp: beforeTest_def split: prod.splits option.splits outcome.splits)
  then obtain s3 where b: "beforeTest host scope s = (s3, Completes)"
    by (cases "beforeTest host scope s") simp
  from assms(4)[of "world s3"] have "snd (runBody t s3) = Fulfilled"
    by (auto simp: runBody_def Let_def split: prod.splits)
  with b show ?thesis by (simp add: runTest_def)
qed

lemma runCases_fulfils:
  assumes "\<And>w. snd (clearAsync host w) = Completes" and "\<And>w. snd (reRender host w) = Completes"
    and "\<And>hook w. beforeEach scope = Some hook \<Longrightarrow> snd (hook w) = Completes"
    and "\<And>t w. t \<in> set ts \<Longrightarrow>
           snd (f t w) = Completes \<or> (\<exists>e m. snd (f t w) = Raises e \<and> message_of e = Some m)"
  shows "snd (runCases host scope ts s) = Fulfilled"
  using assms(4)
proof (induction ts arbitrary: s)
  case Nil
  show ?case by simp
next
  case (Cons t ts)
  have b: "snd (f t w) = Completes \<or> (\<exists>e m. snd (f t w) = Raises e \<and> message_of e = Some m)" for w
    using Cons.prems[of t w] by simp
  have bs: "snd (f t' w) = Completes \<or> (\<exists>e m. snd (f t' w) = Raises e \<and> message_of e = Some m)"
    if "t' \<in> set ts" for t' w
    using Cons.prems[of t' w] that by simp
  have "snd (runTest host scope t s) = Fulfilled"
    by (rule runTest_fulfils) (use assms(1,2,3) b in blast)+
  then obtain s1 where "runTest host scope t s = (s1, Fulfilled)"
    by (cases "runTest host scope t s") simp
  moreover have "snd (runCases host scope ts s1) = Fulfilled"
    by (rule Cons.IH) (use bs in blast)
  ultimately show ?case by simp
qed

lemma runSuites_fulfils:
  assumes "\<And>w. snd (clearAsync host w) = Completes" and "\<And>w. snd (reRender host w) = Completes"
    and "\<And>scope hook w. scope \<in> set scopes \<Longrightarrow> beforeEach scope = Some hook \<Longrightarrow> snd (hook w) = Completes"
    and "\<And>scope t w. scope \<in> set scopes \<Longrightarrow> t \<in> set (testCases scope) \<Longrightarrow>
           snd (f t w) = Completes \<or> (\<exists>e m. snd (f t w) = Raises e \<and> message_of e = Some m)"
  shows "snd (runSuites host scopes s) = Fulfilled"
  using assms(3,4)
proof (induction scopes arbitrary: s)
  case Nil
  show ?case by simp
next
  case (Cons scope scopes)
  have h: "snd (hook w) = Completes" if "beforeEach scope = Some hook" for hook w
    using Cons.prems(1)[of scope hook w] that by simp
  have b: "snd (f t w) = Completes \<or> (\<exists>e m. snd (f t w) = Raises e \<and> message_of e = Some m)"
    if "t \<in> set (testCases scope)" for t w
    using Cons.prems(2)[of scope t w] that by simp
  have hs: "snd (hook w) = Completes" if "scope' \<in> set scopes" "beforeEach scope' = Some hook" for scope' hook w
    using Cons.prems(1)[of scope' hook w] that by simp
  have bs: "snd (f t w) = Completes \<or> (\<exists>e m. snd (f t w) = Raises e \<and> message_of e = Some m)"
    if "scope' \<in> set scopes" "t \<in> set (testCases scope')" for scope' t w
    using Cons.prems(2)[of scope' t w] that by simp
  have "snd (runCases host scope (testCases scope) s) = Fulfilled"
    by (rule runCases_fulfils) (use assms(1,2) h b in blast)+
  then obtain s1 where "runCases host scope (testCases scope) s = (s1, Fulfilled)"
    by (cases "runCases host scope (testCases scope) s") simp
  moreover have "snd (runSuites host scopes s1) = Fulfilled"
    by (rule Cons.IH) (use hs bs in blast)+
  ultimately show ?case by simp
qed

lemma readable_failures_never_stop_the_run:
  assumes "\<And>w. snd (clearAsync (component p) w) = Completes"
    and "\<And>w. snd (reRender (component p) w) = Completes"
    and "\<And>scope hook w. scope \<in> set (testSuites p) \<Longrightarrow> beforeEach scope = Some hook \<Longrightarrow>
           snd (hook w) = Completes"
    and "\<And>scope t w. scope \<in> set (testSuites p) \<Longrightarrow> t \<in> set (testCases scope) \<Longrightarrow>
           snd (f t w) = Completes \<or> (\<exists>e m. snd (f t w) = Raises e \<and> message_of e = Some m)"
  shows "\<exists>s r c. runTestSuites g p s0 = (s, Some r, c) \<and>
           length (testResults s) = length (testResults s0) + length (plan (testSuites p)) \<and>
           bodies_called (trace s) = bodies_called (trace s0) @ map (description \<circ> snd) (plan (testSuites p))"
proof -
  let ?s1 = "emit (LogStarted (now g (world s0))) s0"
  have "snd (runSuites (component p) (testSuites p) ?s1) = Fulfilled"
    by (rule runSuites_fulfils) (use assms in blast)+
  then obtain s2 where loops: "runSuites (component p) (testSuites p) ?s1 = (s2, Fulfilled)"
    by (cases "runSuites (component p) (testSuites p) ?s1") simp
  from runSuites_effect[OF loops] obtain rs evs where
    e: "run_effect (plan (testSuites p)) ?s1 s2 Fulfilled rs evs"
    by blast
  then have rs: "testResults s2 = testResults s0 @ rs" "length rs = length (plan (testSuites p))"
    and tr: "trace s2 = trace s0 @ LogStarted (now g (world s0)) # evs" "list_all is_case_event evs"
      "filter is_host_call evs = concat (map case_calls (plan (testSuites p)))"
    by (simp_all add: run_effect_def)
  have bc: "bodies_called evs = map (description \<circ> snd) (plan (testSuites p))"
    using bodies_called_filter[of evs] tr(3) by (simp add: bodies_called_case_calls)
  obtain s r c where run: "runTestSuites g p s0 = (s, r, c)"
    by (cases "runTestSuites g p s0")
  with loops obtain r' where r: "r = Some r'"
    by (auto simp: runTestSuites_def Let_def split: if_splits prod.splits)
  have fin: "testResults s = testResults s2 \<and> (\<exists>post. trace s = trace s2 @ post \<and> bodies_called post = [])"
  proof -
    define d :: rat where "d = of_int (now g (world s2) - now g (world s0)) / 1000"
    define s3 where "s3 = emit (LogStopped (now g (world s2)) d) s2"
    have alt: "s = emit (ConsoleWarn deprecation_warning) s3 \<or>
          s = fst (reportResults g r' (emit (ConsoleWarn deprecation_warning) s3)) \<or>
          s = fst (reportResults g r' s3)"
      using run loops r
      by (auto simp: runTestSuites_def Let_def d_def s3_def split: if_splits prod.splits)
    have rr: "testResults (fst (reportResults g r' x)) = testResults x \<and>
              (\<exists>post. trace (fst (reportResults g r' x)) = trace x @ post \<and> bodies_called post = [])" for x
    proof -
      from reportResults_effect[of g r' x] obtain evs' where
        "trace (fst (reportResults g r' x)) = trace x @ Fetched probe_request # evs'"
        "filter is_host_call evs' = []"
        by blast
      moreover have "bodies_called evs' = []"
        using bodies_called_filter[of evs'] calculation(2) by simp
      moreover have "testResults (fst (reportResults g r' x)) = testResults x"
        by (simp add: reportResults_def send_def split: prod.splits fetch_outcome.splits)
      ultimately show ?thesis by simp
    qed
    from alt show ?thesis
    proof (elim disjE)
      assume "s = emit (ConsoleWarn deprecation_warning) s3"
      then show ?thesis by (simp add: s3_def)
    next
      assume s: "s = fst (reportResults g r' (emit (ConsoleWarn deprecation_warning) s3))"
      from rr[of "emit (ConsoleWarn deprecation_warning) s3"] show ?thesis
        unfolding s by (auto simp: s3_def)
    next
      assume s: "s = fst (reportResults g r' s3)"
      from rr[of s3] show ?thesis
        unfolding s by (auto simp: s3_def)
    qed
  qed
  then obtain post where "trace s = trace s2 @ post" "bodies_called post = []" "testResults s = testResults s2"
    by blast
  with rs tr(1) bc run r show ?thesis by simp
qed

section \<open>Reporting\<close>

lemma after_stop_case_events:
  "list_all is_case_event evs \<Longrightarrow> after_stop (evs @ LogStopped t d # post) = post"
  by (induction evs rule: after_stop.induct) simp_all

text \<open>
  The three ways \<^verbatim>\<open>runTestSuites\<close> ends once the report is compiled, in the state \<open>s3\<close>
  reached after the line that logs the end of the suites.
\<close>

lemma runTestSuites_finish:
  assumes "runTestSuites g p (TestRunner w) = (s, Some r, c)"
  shows "\<exists>s3 evs t d. trace s3 = LogStarted (now g w) # evs @ [LogStopped t d] \<and>
           list_all is_case_event evs \<and> world s3 = world_after_suites g p w \<and>
           (s, c) =
             (if loosely_differs_from_undefined (shouldSendReport p) then
                if truthy (shouldSendReport p)
                then reportResults g r (emit (ConsoleWarn deprecation_warning) s3)
                else (emit (ConsoleWarn deprecation_warning) s3, Fulfilled)
              else reportResults g r s3)"
proof -
  let ?s1 = "emit (LogStarted (now g w)) (TestRunner w)"
  obtain s2 c2 where loops: "runSuites (component p) (testSuites p) ?s1 = (s2, c2)"
    by (cases "runSuites (component p) (testSuites p) ?s1")
  with assms have c2: "c2 = Fulfilled"
    by (cases c2) (simp_all add: runTestSuites_def Let_def TestRunner_def)
  from new_runner_loops[OF loops] obtain evs where
    evs: "list_all is_case_event evs" "trace s2 = LogStarted (now g w) # evs"
    by (auto simp: run_effect_def)
  define d :: rat where "d = of_int (now g (world s2) - now g w) / 1000"
  define s3 where "s3 = emit (LogStopped (now g (world s2)) d) s2"
  have tr: "trace s3 = LogStarted (now g w) # evs @ [LogStopped (now g (world s2)) d]"
    using evs by (simp add: s3_def)
  have "(s, c) =
             (if loosely_differs_from_undefined (shouldSendReport p) then
                if truthy (shouldSendReport p)
                then reportResults g r (emit (ConsoleWarn deprecation_warning) s3)
                else (emit (ConsoleWarn deprecation_warning) s3, Fulfilled)
              else reportResults g r s3)"
    using assms loops c2
    by (auto simp: runTestSuites_def Let_def d_def s3_def TestRunner_def split: if_splits prod.splits)
  moreover have "world s3 = world_after_suites g p w"
    using loops by (simp add: s3_def world_after_suites_def)
  ultimately show ?thesis using tr evs(1) by blast
qed

text \<open>No run sends anything before the report is compiled.\<close>

lemma no_request_without_report:
  assumes "runTestSuites g p (TestRunner w) = (s, None, c)"
  shows "requests_of (trace s) = []"
proof -
  let ?s1 = "emit (LogStarted (now g w)) (TestRunner w)"
  obtain s2 c2 where loops: "runSuites (component p) (testSuites p) ?s1 = (s2, c2)"
    by (cases "runSuites (component p) (testSuites p) ?s1")
  with assms have "s = s2"
    by (cases c2) (auto simp: runTestSuites_def Let_def TestRunner_def split: if_splits prod.splits)
  moreover from new_runner_loops[OF loops] obtain evs where
    "list_all is_case_event evs" "trace s2 = LogStarted (now g w) # evs"
    by (auto simp: run_effect_def)
  ultimately show ?thesis
    by (simp add: case_events_request_nothing)
qed

text \<open>What a run with a falsy, explicit \<^verbatim>\<open>sendReport\<close> looks like.\<close>

lemma explicit_falsy_toggle:
  assumes "loosely_differs_from_undefined (shouldSendReport p)" and "\<not> truthy (shouldSendReport p)"
  shows "requests_of (trace (fst (runTestSuites g p (TestRunner w)))) = []"
    and "runTestSuites g p (TestRunner w) = (s, Some r, c) \<Longrightarrow>
           after_stop (trace s) = [ConsoleWarn deprecation_warning] \<and> c = Fulfilled"
proof -
  show "requests_of (trace (fst (runTestSuites g p (TestRunner w)))) = []"
  proof (cases "runTestSuites g p (TestRunner w)")
    case (fields s ro c)
    show ?thesis
    proof (cases ro)
      case None
      with fields show ?thesis using no_request_without_report by fastforce
    next
      case (Some r)
      from runTestSuites_finish[OF fields[unfolded Some]] assms obtain s3 evs t d where
        "trace s3 = LogStarted (now g w) # evs @ [LogStopped t d]" "list_all is_case_event evs"
        "s = emit (ConsoleWarn deprecation_warning) s3"
        by auto
      then show ?thesis using fields
        by (simp add: case_events_request_nothing)
    qed
  qed
next
  assume "runTestSuites g p (TestRunner w) = (s, Some r, c)"
  from runTestSuites_finish[OF this] assms obtain s3 evs t d where
    "trace s3 = LogStarted (now g w) # evs @ [LogStopped t d]" "list_all is_case_event evs"
    "s = emit (ConsoleWarn deprecation_warning) s3" "c = Fulfilled"
    by auto
  then show "after_stop (trace s) = [ConsoleWarn deprecation_warning] \<and> c = Fulfilled"
    using after_stop_case_events[of evs t d "[ConsoleWarn deprecation_warning]"] by simp
qed

text \<open>
  What a run looks like when \<^verbatim>\<open>sendReport\<close> is absent (\<^verbatim>\<open>undefined\<close> or \<^verbatim>\<open>null\<close>) or truthy: the
  probe is sent in the world the suites left, and its answer decides whether the report
  follows.
\<close>

lemma reporting_attempted:
  assumes "\<not> loosely_differs_from_undefined (shouldSendReport p) \<or> truthy (shouldSendReport p)"
    and "runTestSuites g p (TestRunner w) = (s, Some r, c)"
  shows "\<exists>rest. after_stop (trace s) =
             (if loosely_differs_from_undefined (shouldSendReport p) then [ConsoleWarn deprecation_warning] else []) @
             Fetched probe_request # rest"
    and "requests_of (trace s) =
           (if probe_response g (world_after_suites g p w) = Responds ''cavy-cli running''
            then [probe_request, post_request r] else [probe_request])"
    and "c \<noteq> Rejected e"
proof -
  let ?warn = "if loosely_differs_from_undefined (shouldSendReport p) then [ConsoleWarn deprecation_warning] else []"
  from runTestSuites_finish[OF assms(2)] obtain s3 evs t d where
    s3: "trace s3 = LogStarted (now g w) # evs @ [LogStopped t d]" "list_all is_case_event evs"
        "world s3 = world_after_suites g p w"
    and fin: "(s, c) =
             (if loosely_differs_from_undefined (shouldSendReport p) then
                if truthy (shouldSendReport p)
                then reportResults g r (emit (ConsoleWarn deprecation_warning) s3)
                else (emit (ConsoleWarn deprecation_warning) s3, Fulfilled)
              else reportResults g r s3)"
    by blast
  define s4 where "s4 = (if loosely_differs_from_undefined (shouldSendReport p)
                         then emit (ConsoleWarn deprecation_warning) s3 else s3)"
  have s4: "trace s4 = trace s3 @ ?warn" "world s4 = world s3"
    by (simp_all add: s4_def)
  have sc: "(s, c) = reportResults g r s4"
    using fin assms(1) by (auto simp: s4_def)
  then have s: "s = fst (reportResults g r s4)" and c: "c = snd (reportResults g r s4)"
    by (simp_all add: prod_eq_iff)
  from reportResults_effect[of g r s4] obtain rest where
    rest: "trace s = trace s4 @ Fetched probe_request # rest"
      "requests_of rest = (if probe_answer g s4 = Responds ''cavy-cli running'' then [post_request r] else [])"
    unfolding s by blast
  have pa: "probe_answer g s4 = probe_response g (world_after_suites g p w)"
    using s4(2) s3(3) by (simp add: probe_answer_eq probe_response_def)
  have "after_stop (trace s) = ?warn @ Fetched probe_request # rest"
    using after_stop_case_events[of evs t d "?warn @ Fetched probe_request # rest"] s3 s4 rest(1) by simp
  then show "\<exists>rest. after_stop (trace s) = ?warn @ Fetched probe_request # rest"
    by blast
  have "requests_of (trace s) = probe_request # requests_of rest"
    using s3 s4 rest(1) by (simp add: case_events_request_nothing)
  then show "requests_of (trace s) =
           (if probe_response g (world_after_suites g p w) = Responds ''cavy-cli running''
            then [probe_request, post_request r] else [probe_request])"
    using rest(2) pa by simp
  show "c \<noteq> Rejected e"
    unfolding c by (rule reportResults_never_rejects)
qed

text \<open>
  C6. \<^verbatim>\<open>reportResults\<close> first sends the probe, a GET to the fixed address, and nothing else
  before its answer. It goes on to \<^verbatim>\<open>send\<close> exactly when the answer is a response whose text
  is \<^verbatim>\<open>cavy-cli running\<close>: then the requests are the probe and the POST of the report, otherwise
  the probe alone. After any other text and after a rejection of the probe the one line
  \<^verbatim>\<open>Skipping sending test report to cavy-cli - <reason>.\<close> is logged, with the reason
  \<^verbatim>\<open>Unexpected response\<close> or the message of the rejection, and the promise is fulfilled. It is
  never rejected.
\<close>

theorem probe_decides_delivery:
  "probe_request = \<lparr>url = ''http://127.0.0.1:8082/'', http_method = ''GET'', headers = [], body = None\<rparr> \<and>
   trace (probed g s) = trace s @ [Fetched probe_request] \<and>
   requests_of (trace (fst (reportResults g r s))) =
     requests_of (trace s) @
     (if probe_answer g s = Responds ''cavy-cli running'' then [probe_request, post_request r] else [probe_request]) \<and>
   (probe_answer g s = Responds ''cavy-cli running'' \<longrightarrow> reportResults g r s = send g r (probed g s)) \<and>
   (\<forall>t. probe_answer g s = Responds t \<and> t \<noteq> ''cavy-cli running'' \<longrightarrow>
        reportResults g r s = (emit (ConsoleLog (skipping ''Unexpected response'')) (probed g s), Fulfilled)) \<and>
   (\<forall>m. probe_answer g s = Fails m \<longrightarrow>
        reportResults g r s = (emit (ConsoleLog (skipping m)) (probed g s), Fulfilled)) \<and>
   (\<forall>e. snd (reportResults g r s) \<noteq> Rejected e)"
proof (intro conjI allI impI)
  show "probe_request = \<lparr>url = ''http://127.0.0.1:8082/'', http_method = ''GET'', headers = [], body = None\<rparr>"
    by (simp add: probe_request_def)
  show "trace (probed g s) = trace s @ [Fetched probe_request]"
    by (simp add: probed_eq)
  from reportResults_effect[of g r s] obtain evs where
    "trace (fst (reportResults g r s)) = trace s @ Fetched probe_request # evs"
    "requests_of evs = (if probe_answer g s = Responds ''cavy-cli running'' then [post_request r] else [])"
    by blast
  then show "requests_of (trace (fst (reportResults g r s))) =
     requests_of (trace s) @
     (if probe_answer g s = Responds ''cavy-cli running'' then [probe_request, post_request r] else [probe_request])"
    by simp
  show "reportResults g r s = send g r (probed g s)" if "probe_answer g s = Responds ''cavy-cli running''"
    using that by (simp add: reportResults_def probe_answer_eq probed_eq split: prod.splits)
  show "reportResults g r s = (emit (ConsoleLog (skipping ''Unexpected response'')) (probed g s), Fulfilled)"
    if "probe_answer g s = Responds t \<and> t \<noteq> ''cavy-cli running''" for t
    using that by (simp add: reportResults_def probe_answer_eq probed_eq split: prod.splits)
  show "reportResults g r s = (emit (ConsoleLog (skipping m)) (probed g s), Fulfilled)"
    if "probe_answer g s = Fails m" for m
    using that by (simp add: reportResults_def probe_answer_eq probed_eq split: prod.splits)
  show "snd (reportResults g r s) \<noteq> Rejected e" for e
    by (rule reportResults_never_rejects)
qed

theorem probe_decides_delivery_witness:
  "probe_answer ex_server (TestRunner 0) = Responds ''cavy-cli running'' \<and>
   reportResults ex_server ex_report (TestRunner 0) = send ex_server ex_report (probed ex_server (TestRunner 0)) \<and>
   requests_of (trace (fst (reportResults ex_server ex_report (TestRunner 0)))) =
     [probe_request, post_request ex_report] \<and>
   probe_answer ex_other_server (TestRunner 0) = Responds ''It works!'' \<and>
   reportResults ex_other_server ex_report (TestRunner 0) =
     (\<lparr>world = 1, testResults = [], this_errorCount = 0,
       trace = [Fetched probe_request,
                ConsoleLog ''Skipping sending test report to cavy-cli - Unexpected response.'']\<rparr>, Fulfilled) \<and>
   probe_answer ex_no_server (TestRunner 0) = Fails ''Network request failed'' \<and>
   reportResults ex_no_server ex_report (TestRunner 0) =
     (\<lparr>world = 1, testResults = [], this_errorCount = 0,
       trace = [Fetched probe_request,
                ConsoleLog ''Skipping sending test report to cavy-cli - Network request failed.'']\<rparr>, Fulfilled)"
proof -
  have a: "probe_answer ex_server (TestRunner 0) = Responds ''cavy-cli running''"
    by (simp add: probe_answer_eq ex_server_def probe_request_def TestRunner_def)
  have b: "probe_answer ex_other_server (TestRunner 0) = Responds ''It works!'' \<and> ''It works!'' \<noteq> ''cavy-cli running''"
    by (simp add: probe_answer_eq ex_other_server_def probe_request_def TestRunner_def)
  have c: "probe_answer ex_no_server (TestRunner 0) = Fails ''Network request failed''"
    by (simp add: probe_answer_eq ex_no_server_def probe_request_def TestRunner_def)
  have pb: "probed ex_other_server (TestRunner 0) =
              \<lparr>world = 1, testResults = [], this_errorCount = 0, trace = [Fetched probe_request]\<rparr>"
           "probed ex_no_server (TestRunner 0) =
              \<lparr>world = 1, testResults = [], this_errorCount = 0, trace = [Fetched probe_request]\<rparr>"
    by (simp_all add: probed_eq ex_other_server_def ex_no_server_def TestRunner_def emit_def)
  from probe_decides_delivery[of ex_server "TestRunner 0" ex_report] a
  have 1: "reportResults ex_server ex_report (TestRunner 0) = send ex_server ex_report (probed ex_server (TestRunner 0))"
    by blast
  from probe_decides_delivery[of ex_server "TestRunner 0" ex_report]
  have "requests_of (trace (fst (reportResults ex_server ex_report (TestRunner 0)))) =
     requests_of (trace (TestRunner 0 :: nat runner)) @
     (if probe_answer ex_server (TestRunner 0) = Responds ''cavy-cli running''
      then [probe_request, post_request ex_report] else [probe_request])"
    by blast
  then have 2: "requests_of (trace (fst (reportResults ex_server ex_report (TestRunner 0)))) =
              [probe_request, post_request ex_report]"
    by (simp only: a if_True) (simp add: TestRunner_def)
  from probe_decides_delivery[of ex_other_server "TestRunner 0" ex_report] b
  have 3: "reportResults ex_other_server ex_report (TestRunner 0) =
             (emit (ConsoleLog (skipping ''Unexpected response'')) (probed ex_other_server (TestRunner 0)), Fulfilled)"
    by blast
  from probe_decides_delivery[of ex_no_server "TestRunner 0" ex_report] c
  have 4: "reportResults ex_no_server ex_report (TestRunner 0) =
             (emit (ConsoleLog (skipping ''Network request failed'')) (probed ex_no_server (TestRunner 0)), Fulfilled)"
    by blast
  show ?thesis
    using a b c 1 2 3 4 by (simp add: pb emit_def skipping_def)
qed

text \<open>
  C7. With \<^verbatim>\<open>sendReport\<close> set to \<^verbatim>\<open>false\<close> no run sends a request, whatever the server would
  answer; once the suites are finished the deprecation warning is logged and nothing
  after it. With \<^verbatim>\<open>sendReport\<close> not provided, a run that finishes its suites goes straight
  from the line that logs their end to the probe, and the answer to the probe decides
  whether the report is sent.
\<close>

theorem legacy_toggle_false_suppresses_reporting:
  "(shouldSendReport p = JSBool False \<longrightarrow>
      requests_of (trace (fst (runTestSuites g p (TestRunner w)))) = [] \<and>
      (\<forall>s r c. runTestSuites g p (TestRunner w) = (s, Some r, c) \<longrightarrow>
         after_stop (trace s) = [ConsoleWarn deprecation_warning] \<and> c = Fulfilled)) \<and>
   (shouldSendReport p = JSUndefined \<longrightarrow>
      (\<forall>s r c. runTestSuites g p (TestRunner w) = (s, Some r, c) \<longrightarrow>
         (\<exists>rest. after_stop (trace s) = Fetched probe_request # rest) \<and>
         requests_of (trace s) =
           (if probe_response g (world_after_suites g p w) = Responds ''cavy-cli running''
            then [probe_request, post_request r] else [probe_request])))"
proof (intro conjI allI impI)
  assume v: "shouldSendReport p = JSBool False"
  then show "requests_of (trace (fst (runTestSuites g p (TestRunner w)))) = []"
    using explicit_falsy_toggle(1)[of p g w] by simp
  fix s r c assume "runTestSuites g p (TestRunner w) = (s, Some r, c)"
  with v show "after_stop (trace s) = [ConsoleWarn deprecation_warning]" and "c = Fulfilled"
    using explicit_falsy_toggle(2)[of p g w s r c] by simp_all
next
  fix s r c
  assume v: "shouldSendReport p = JSUndefined" and run: "runTestSuites g p (TestRunner w) = (s, Some r, c)"
  from v have "\<not> loosely_differs_from_undefined (shouldSendReport p) \<or> truthy (shouldSendReport p)"
    by simp
  from reporting_attempted(1,2)[OF this run] v
  show "\<exists>rest. after_stop (trace s) = Fetched probe_request # rest"
    and "requests_of (trace s) =
           (if probe_response g (world_after_suites g p w) = Responds ''cavy-cli running''
            then [probe_request, post_request r] else [probe_request])"
    by simp_all
qed

theorem legacy_toggle_false_suppresses_reporting_witness:
  "shouldSendReport (ex_props ex_suites (JSBool False)) = JSBool False \<and>
   fst (snd (runTestSuites ex_server (ex_props ex_suites (JSBool False)) (TestRunner 0))) = Some ex_report \<and>
   requests_of (trace (fst (runTestSuites ex_server (ex_props ex_suites (JSBool False)) (TestRunner 0)))) = [] \<and>
   after_stop (trace (fst (runTestSuites ex_server (ex_props ex_suites (JSBool False)) (TestRunner 0)))) =
     [ConsoleWarn deprecation_warning] \<and>
   shouldSendReport (ex_props ex_suites JSUndefined) = JSUndefined \<and>
   probe_response ex_server (world_after_suites ex_server (ex_props ex_suites JSUndefined) 0) =
     Responds ''cavy-cli running'' \<and>
   requests_of (trace (fst (runTestSuites ex_server (ex_props ex_suites JSUndefined) (TestRunner 0)))) =
     [probe_request, post_request ex_report]"
proof -
  let ?pF = "ex_props ex_suites (JSBool False)" and ?pU = "ex_props ex_suites JSUndefined"
  have vF: "shouldSendReport ?pF = JSBool False" and vU: "shouldSendReport ?pU = JSUndefined"
    by (simp_all add: ex_props_def)
  have "fst (snd (runTestSuites ex_server ?pF (TestRunner 0))) = Some ex_report"
    by (simp add: run_defs ex_suites_def ex_report_def)
  then have runF: "runTestSuites ex_server ?pF (TestRunner 0) =
      (fst (runTestSuites ex_server ?pF (TestRunner 0)), Some ex_report,
       snd (snd (runTestSuites ex_server ?pF (TestRunner 0))))"
    by (simp add: prod_eq_iff)
  have runU: "runTestSuites ex_server ?pU (TestRunner 0) =
      (fst (runTestSuites ex_server ?pU (TestRunner 0)), Some ex_report,
       snd (snd (runTestSuites ex_server ?pU (TestRunner 0))))"
    using ex_run_report by (simp add: prod_eq_iff)
  have answer: "probe_response ex_server (world_after_suites ex_server ?pU 0) = Responds ''cavy-cli running''"
    by (simp add: probe_response_def ex_server_def probe_request_def)
  note F = legacy_toggle_false_suppresses_reporting[of ?pF ex_server 0]
  note U = legacy_toggle_false_suppresses_reporting[of ?pU ex_server 0]
  from F vF have "requests_of (trace (fst (runTestSuites ex_server ?pF (TestRunner 0)))) = []"
    by blast
  moreover from F vF runF
  have "after_stop (trace (fst (runTestSuites ex_server ?pF (TestRunner 0)))) = [ConsoleWarn deprecation_warning]"
    by blast
  moreover from U vU runU
  have "requests_of (trace (fst (runTestSuites ex_server ?pU (TestRunner 0)))) =
           (if probe_response ex_server (world_after_suites ex_server ?pU 0) = Responds ''cavy-cli running''
            then [probe_request, post_request ex_report] else [probe_request])"
    by blast
  ultimately show ?thesis
    using vF vU runF answer by (simp only: if_True prod_eq_iff fst_conv snd_conv simp_thms)
qed

text \<open>What \<^verbatim>\<open>reportResults\<close> adds to the trace, event by event.\<close>

lemma handleError_events: "trace (handleError m u s) = trace s @ error_events m u"
  by (simp add: handleError_def error_events_def)

lemma reportResults_events:
  "trace (fst (reportResults g r s)) = trace s @ reporting_events g r (world s)"
  by (simp add: reportResults_def send_def reporting_events_def probe_response_def post_answer_def
        handleError_events split: prod.splits fetch_outcome.splits)

text \<open>
  The deprecation warning is no line of a test case: a failure line holds the fail mark,
  the warning does not. While reporting, the only warning is the one \<^verbatim>\<open>handleError\<close> writes,
  with the message of the error that \<^verbatim>\<open>fetch\<close> rejected the POST with.
\<close>

lemma failure_line_is_not_the_warning:
  assumes "prefix (error_prefix d) m"
  shows "m \<noteq> deprecation_warning"
proof -
  have "CHR 0xE2 \<in> set (error_prefix d)"
    by (simp add: error_prefix_def fail_mark_def)
  with assms have "CHR 0xE2 \<in> set m"
    by (auto simp: prefix_def)
  moreover have "CHR 0xE2 \<notin> set deprecation_warning"
    by (simp add: deprecation_warning_def)
  ultimately show ?thesis by blast
qed

lemma case_calls_no_warning: "ConsoleWarn x \<notin> set (case_calls sc)"
  by (simp add: case_calls_def split: option.splits)

lemma runTest_no_deprecation_warning:
  assumes "runTest host scope t s = (s', c)"
  shows "\<exists>evs. trace s' = trace s @ evs \<and> ConsoleWarn deprecation_warning \<notin> set evs"
proof (cases "c = Fulfilled")
  case True
  with assms obtain r where r: "result_of (scope, t) r"
      "trace s' = trace s @ case_calls (scope, t) @
                   [if passed r then ConsoleLog (message r) else ConsoleWarn (message r)]"
    using runTest_Fulfilled by blast
  have "passed r \<or> message r \<noteq> deprecation_warning"
    using r(1) failure_line_is_not_the_warning[of "description t" "message r"]
    by (auto simp: result_of_def)
  then have "ConsoleWarn deprecation_warning \<notin>
      set (case_calls (scope, t) @ [if passed r then ConsoleLog (message r) else ConsoleWarn (message r)])"
    using case_calls_no_warning[of deprecation_warning "(scope, t)"] by auto
  with r(2) show ?thesis by blast
next
  case False
  with assms obtain evs where e: "trace s' = trace s @ evs" "prefix evs (case_calls (scope, t))"
    using runTest_unsettled by blast
  then have "set evs \<subseteq> set (case_calls (scope, t))"
    by (auto simp: prefix_def)
  with case_calls_no_warning[of deprecation_warning "(scope, t)"]
  have "ConsoleWarn deprecation_warning \<notin> set evs" by blast
  with e(1) show ?thesis by blast
qed

lemma runCases_no_deprecation_warning:
  "runCases host scope ts s = (s', c) \<Longrightarrow>
     \<exists>evs. trace s' = trace s @ evs \<and> ConsoleWarn deprecation_warning \<notin> set evs"
proof (induction ts arbitrary: s)
  case Nil
  then show ?case by simp
next
  case (Cons t ts)
  obtain s1 c1 where st: "runTest host scope t s = (s1, c1)"
    by (cases "runTest host scope t s")
  from runTest_no_deprecation_warning[OF st] obtain evs1 where
    e1: "trace s1 = trace s @ evs1" "ConsoleWarn deprecation_warning \<notin> set evs1"
    by blast
  show ?case
  proof (cases "c1 = Fulfilled")
    case True
    with Cons.prems st have "runCases host scope ts s1 = (s', c)" by simp
    from Cons.IH[OF this] obtain evs where
      "trace s' = trace s1 @ evs" "ConsoleWarn deprecation_warning \<notin> set evs"
      by blast
    with e1 have "trace s' = trace s @ (evs1 @ evs) \<and> ConsoleWarn deprecation_warning \<notin> set (evs1 @ evs)"
      by simp
    then show ?thesis by blast
  next
    case False
    with Cons.prems st have "s' = s1" by (cases c1) simp_all
    with e1 show ?thesis by blast
  qed
qed

lemma runSuites_no_deprecation_warning:
  "runSuites host scopes s = (s', c) \<Longrightarrow>
     \<exists>evs. trace s' = trace s @ evs \<and> ConsoleWarn deprecation_warning \<notin> set evs"
proof (induction scopes arbitrary: s)
  case Nil
  then show ?case by simp
next
  case (Cons scope scopes)
  obtain s1 c1 where st: "runCases host scope (testCases scope) s = (s1, c1)"
    by (cases "runCases host scope (testCases scope) s")
  from runCases_no_deprecation_warning[OF st] obtain evs1 where
    e1: "trace s1 = trace s @ evs1" "ConsoleWarn deprecation_warning \<notin> set evs1"
    by blast
  show ?case
  proof (cases "c1 = Fulfilled")
    case True
    with Cons.prems st have "runSuites host scopes s1 = (s', c)" by simp
    from Cons.IH[OF this] obtain evs where
      "trace s' = trace s1 @ evs" "ConsoleWarn deprecation_warning \<notin> set evs"
      by blast
    with e1 have "trace s' = trace s @ (evs1 @ evs) \<and> ConsoleWarn deprecation_warning \<notin> set (evs1 @ evs)"
      by simp
    then show ?thesis by blast
  next
    case False
    with Cons.prems st have "s' = s1" by (cases c1) simp_all
    with e1 show ?thesis by blast
  qed
qed

lemma error_events_warning:
  "ConsoleWarn deprecation_warning \<in> set (error_events m u) \<Longrightarrow> m = deprecation_warning"
  by (simp add: error_events_def handleError_def split: if_splits)

lemma reporting_events_no_deprecation_warning:
  assumes "post_answer g r w \<noteq> Fails deprecation_warning"
  shows "ConsoleWarn deprecation_warning \<notin> set (reporting_events g r w)"
  using assms error_events_warning[of _ report_url]
  by (auto simp: reporting_events_def split: fetch_outcome.splits if_splits)

text \<open>
  A run whose \<^verbatim>\<open>sendReport\<close> is absent (\<^verbatim>\<open>undefined\<close> or \<^verbatim>\<open>null\<close>), from the line that logs the
  end of the suites on: nothing but what \<^verbatim>\<open>reportResults\<close> does. The deprecation warning is
  in no line of the run, unless the POST of the report is rejected with an error whose
  message is the very text of the warning, which \<^verbatim>\<open>handleError\<close> then writes.
\<close>

lemma absent_toggle_run:
  assumes "\<not> loosely_differs_from_undefined (shouldSendReport p)"
    and "runTestSuites g p (TestRunner w) = (s, Some r, c)"
  shows "after_stop (trace s) = reporting_events g r (world_after_suites g p w)"
    and "post_answer g r (world_after_suites g p w) \<noteq> Fails deprecation_warning \<Longrightarrow>
           ConsoleWarn deprecation_warning \<notin> set (trace s)"
proof -
  let ?s1 = "emit (LogStarted (now g w)) (TestRunner w)"
  let ?W = "world_after_suites g p w"
  obtain s2 c2 where loops: "runSuites (component p) (testSuites p) ?s1 = (s2, c2)"
    by (cases "runSuites (component p) (testSuites p) ?s1")
  with assms(2) have c2: "c2 = Fulfilled"
    by (cases c2) (simp_all add: runTestSuites_def Let_def TestRunner_def)
  from new_runner_loops[OF loops] obtain evs where
    evs: "list_all is_case_event evs" "trace s2 = LogStarted (now g w) # evs"
    by (auto simp: run_effect_def)
  from runSuites_no_deprecation_warning[OF loops] obtain evs' where
    "trace s2 = trace ?s1 @ evs'" "ConsoleWarn deprecation_warning \<notin> set evs'"
    by blast
  with evs(2) have quiet: "ConsoleWarn deprecation_warning \<notin> set evs"
    by (simp add: TestRunner_def)
  define d :: rat where "d = of_int (now g (world s2) - now g w) / 1000"
  define s3 where "s3 = emit (LogStopped (now g (world s2)) d) s2"
  have tr3: "trace s3 = LogStarted (now g w) # evs @ [LogStopped (now g (world s2)) d]"
    using evs by (simp add: s3_def)
  have w3: "world s3 = ?W"
    using loops by (simp add: s3_def world_after_suites_def)
  have "(s, c) = reportResults g r s3"
    using assms loops c2
    by (auto simp: runTestSuites_def Let_def d_def s3_def TestRunner_def split: if_splits prod.splits)
  then have "s = fst (reportResults g r s3)"
    by (simp add: prod_eq_iff)
  then have tr: "trace s = LogStarted (now g w) # evs @ LogStopped (now g (world s2)) d # reporting_events g r ?W"
    using reportResults_events[of g r s3] tr3 w3 by simp
  show "after_stop (trace s) = reporting_events g r ?W"
    using after_stop_case_events[OF evs(1), of "now g (world s2)" d "reporting_events g r ?W"]
    by (simp add: tr)
  show "ConsoleWarn deprecation_warning \<notin> set (trace s)"
    if "post_answer g r ?W \<noteq> Fails deprecation_warning"
    using reporting_events_no_deprecation_warning[OF that] quiet by (simp add: tr)
qed

text \<open>
  C10. \<^verbatim>\<open>null != undefined\<close> is false, so a runner built with \<^verbatim>\<open>sendReport\<close> \<^verbatim>\<open>null\<close> behaves as
  one built without it. No deprecation warning is logged: from the line that logs the end
  of the suites on, the run consists of what \<^verbatim>\<open>reportResults\<close> does and of nothing else, the
  probe first, and the probe's answer decides whether the report is sent; the text of the
  warning is in no line of the whole run (unless \<^verbatim>\<open>fetch\<close> rejects the POST with an error
  that has this very text for its message, which \<^verbatim>\<open>handleError\<close> writes). The other falsy
  values (\<^verbatim>\<open>false\<close>, \<^verbatim>\<open>0\<close>, the empty string, and \<^verbatim>\<open>NaN\<close>) differ from \<^verbatim>\<open>undefined\<close>: the warning
  is logged, it is the last line of the run, and no request is ever sent.
\<close>

theorem null_toggle_probes_other_falsy_toggles_suppress:
  "runTestSuites g (p\<lparr>shouldSendReport := JSNull\<rparr>) s0 = runTestSuites g (p\<lparr>shouldSendReport := JSUndefined\<rparr>) s0 \<and>
   (shouldSendReport p = JSNull \<longrightarrow>
      (\<forall>s r c. runTestSuites g p (TestRunner w) = (s, Some r, c) \<longrightarrow>
         (\<exists>rest. after_stop (trace s) = Fetched probe_request # rest) \<and>
         after_stop (trace s) = reporting_events g r (world_after_suites g p w) \<and>
         (post_answer g r (world_after_suites g p w) \<noteq> Fails deprecation_warning \<longrightarrow>
            ConsoleWarn deprecation_warning \<notin> set (trace s)) \<and>
         requests_of (trace s) =
           (if probe_response g (world_after_suites g p w) = Responds ''cavy-cli running''
            then [probe_request, post_request r] else [probe_request]))) \<and>
   (shouldSendReport p \<in> {JSBool False, JSNumber 0, JSString [], JSNaN} \<longrightarrow>
      requests_of (trace (fst (runTestSuites g p (TestRunner w)))) = [] \<and>
      (\<forall>s r c. runTestSuites g p (TestRunner w) = (s, Some r, c) \<longrightarrow>
         after_stop (trace s) = [ConsoleWarn deprecation_warning] \<and> c = Fulfilled))"
proof (intro conjI allI impI)
  show "runTestSuites g (p\<lparr>shouldSendReport := JSNull\<rparr>) s0 =
        runTestSuites g (p\<lparr>shouldSendReport := JSUndefined\<rparr>) s0"
    by (simp add: runTestSuites_def)
next
  fix s r c
  assume v: "shouldSendReport p = JSNull" and run: "runTestSuites g p (TestRunner w) = (s, Some r, c)"
  from v have absent: "\<not> loosely_differs_from_undefined (shouldSendReport p)"
    by simp
  then have "\<not> loosely_differs_from_undefined (shouldSendReport p) \<or> truthy (shouldSendReport p)"
    by simp
  from reporting_attempted(1,2)[OF this run] v
  show "\<exists>rest. after_stop (trace s) = Fetched probe_request # rest"
    and "requests_of (trace s) =
           (if probe_response g (world_after_suites g p w) = Responds ''cavy-cli running''
            then [probe_request, post_request r] else [probe_request])"
    by simp_all
  show "after_stop (trace s) = reporting_events g r (world_after_suites g p w)"
    by (rule absent_toggle_run(1)[OF absent run])
  show "ConsoleWarn deprecation_warning \<notin> set (trace s)"
    if "post_answer g r (world_after_suites g p w) \<noteq> Fails deprecation_warning"
    by (rule absent_toggle_run(2)[OF absent run that])
next
  assume "shouldSendReport p \<in> {JSBool False, JSNumber 0, JSString [], JSNaN}"
  then have v: "loosely_differs_from_undefined (shouldSendReport p)" "\<not> truthy (shouldSendReport p)"
    by auto
  from explicit_falsy_toggle(1)[OF v]
  show "requests_of (trace (fst (runTestSuites g p (TestRunner w)))) = []" .
  fix s r c assume "runTestSuites g p (TestRunner w) = (s, Some r, c)"
  from explicit_falsy_toggle(2)[OF v this]
  show "after_stop (trace s) = [ConsoleWarn deprecation_warning]" and "c = Fulfilled"
    by simp_all
qed

theorem null_toggle_probes_other_falsy_toggles_suppress_witness:
  "shouldSendReport (ex_props ex_suites JSNull) = JSNull \<and>
   fst (snd (runTestSuites ex_server (ex_props ex_suites JSNull) (TestRunner 0))) = Some ex_report \<and>
   probe_response ex_server (world_after_suites ex_server (ex_props ex_suites JSNull) 0) =
     Responds ''cavy-cli running'' \<and>
   post_answer ex_server ex_report (world_after_suites ex_server (ex_props ex_suites JSNull) 0) = Responds [] \<and>
   after_stop (trace (fst (runTestSuites ex_server (ex_props ex_suites JSNull) (TestRunner 0)))) =
     [Fetched probe_request, Fetched (post_request ex_report),
      ConsoleLog ''Cavy test report successfully sent to cavy-cli''] \<and>
   ConsoleWarn deprecation_warning \<notin>
     set (trace (fst (runTestSuites ex_server (ex_props ex_suites JSNull) (TestRunner 0)))) \<and>
   requests_of (trace (fst (runTestSuites ex_server (ex_props ex_suites JSNull) (TestRunner 0)))) =
     [probe_request, post_request ex_report] \<and>
   shouldSendReport (ex_props ex_suites (JSNumber 0)) \<in> {JSBool False, JSNumber 0, JSString [], JSNaN} \<and>
   fst (snd (runTestSuites ex_server (ex_props ex_suites (JSNumber 0)) (TestRunner 0))) = Some ex_report \<and>
   requests_of (trace (fst (runTestSuites ex_server (ex_props ex_suites (JSNumber 0)) (TestRunner 0)))) = [] \<and>
   after_stop (trace (fst (runTestSuites ex_server (ex_props ex_suites (JSNumber 0)) (TestRunner 0)))) =
     [ConsoleWarn deprecation_warning]"
proof -
  let ?pN = "ex_props ex_suites JSNull" and ?pZ = "ex_props ex_suites (JSNumber 0)"
  let ?W = "world_after_suites ex_server ?pN 0"
  have vN: "shouldSendReport ?pN = JSNull"
    and vZ: "shouldSendReport ?pZ \<in> {JSBool False, JSNumber 0, JSString [], JSNaN}"
    by (simp_all add: ex_props_def)
  have repN: "fst (snd (runTestSuites ex_server ?pN (TestRunner 0))) = Some ex_report"
    by (simp add: run_defs ex_suites_def ex_report_def)
  then have runN: "runTestSuites ex_server ?pN (TestRunner 0) =
      (fst (runTestSuites ex_server ?pN (TestRunner 0)), Some ex_report,
       snd (snd (runTestSuites ex_server ?pN (TestRunner 0))))"
    by (simp add: prod_eq_iff)
  have repZ: "fst (snd (runTestSuites ex_server ?pZ (TestRunner 0))) = Some ex_report"
    by (simp add: run_defs ex_suites_def ex_report_def)
  then have runZ: "runTestSuites ex_server ?pZ (TestRunner 0) =
      (fst (runTestSuites ex_server ?pZ (TestRunner 0)), Some ex_report,
       snd (snd (runTestSuites ex_server ?pZ (TestRunner 0))))"
    by (simp add: prod_eq_iff)
  have answer: "probe_response ex_server ?W = Responds ''cavy-cli running''"
    by (simp add: probe_response_def ex_server_def probe_request_def)
  have posted: "post_answer ex_server ex_report ?W = Responds []"
    by (simp add: post_answer_def ex_server_def probe_request_def post_request_def)
  then have ne: "post_answer ex_server ex_report ?W \<noteq> Fails deprecation_warning"
    by simp
  have events: "reporting_events ex_server ex_report ?W =
      [Fetched probe_request, Fetched (post_request ex_report),
       ConsoleLog ''Cavy test report successfully sent to cavy-cli'']"
    by (simp add: reporting_events_def answer posted)
  note N = null_toggle_probes_other_falsy_toggles_suppress[of ex_server ?pN _ 0]
  note Z = null_toggle_probes_other_falsy_toggles_suppress[of ex_server ?pZ _ 0]
  from N vN runN
  have "requests_of (trace (fst (runTestSuites ex_server ?pN (TestRunner 0)))) =
           (if probe_response ex_server ?W = Responds ''cavy-cli running''
            then [probe_request, post_request ex_report] else [probe_request])"
    by blast
  then have 1: "requests_of (trace (fst (runTestSuites ex_server ?pN (TestRunner 0)))) =
           [probe_request, post_request ex_report]"
    by (simp only: answer simp_thms if_True)
  from N vN runN
  have "after_stop (trace (fst (runTestSuites ex_server ?pN (TestRunner 0)))) =
          reporting_events ex_server ex_report ?W"
    by blast
  then have 4: "after_stop (trace (fst (runTestSuites ex_server ?pN (TestRunner 0)))) =
      [Fetched probe_request, Fetched (post_request ex_report),
       ConsoleLog ''Cavy test report successfully sent to cavy-cli'']"
    by (simp only: events)
  from N vN runN ne
  have 5: "ConsoleWarn deprecation_warning \<notin> set (trace (fst (runTestSuites ex_server ?pN (TestRunner 0))))"
    by blast
  from Z vZ have 2: "requests_of (trace (fst (runTestSuites ex_server ?pZ (TestRunner 0)))) = []"
    by blast
  from Z vZ runZ
  have 3: "after_stop (trace (fst (runTestSuites ex_server ?pZ (TestRunner 0)))) = [ConsoleWarn deprecation_warning]"
    by blast
  from vN repN answer posted 4 5 1 vZ repZ 2 3 show ?thesis
    by blast
qed

section \<open>The payload reads back\<close>

subsection \<open>Strings\<close>

lemma hex_val_hex_digit: "k < 16 \<Longrightarrow> hex_val (hex_digit k) = Some k"
  by (auto simp: hex_val_def hex_digit_def Let_def)

lemma unquote_closing: "unquote (CHR 0x22 # cs) = Some ([], cs)"
  by simp

lemma unquote_escape:
  assumes "unescape e = Some x"
  shows "unquote (CHR 0x5C # e # cs) = map_option (\<lambda>(y, r). (x # y, r)) (unquote cs)"
proof -
  from assms have "e \<noteq> CHR ''u''"
    by (auto simp: unescape_def)
  with assms show ?thesis by simp
qed

lemma unquote_u00:
  assumes "hex_val h3 = Some a" and "hex_val h4 = Some b" and "a < 8"
  shows "unquote (CHR 0x5C # CHR ''u'' # CHR ''0'' # CHR ''0'' # h3 # h4 # rest) =
           map_option (\<lambda>(x, r). (char_of (16 * a + b) # x, r)) (unquote rest)"
proof -
  have "hex_val (CHR ''0'') = Some 0"
    by (simp add: hex_val_def)
  with assms show ?thesis by simp
qed

lemma unquote_plain:
  assumes "c \<noteq> CHR 0x22" and "c \<noteq> CHR 0x5C" and "\<not> (of_char c :: nat) < 0x20"
  shows "unquote (c # cs) = map_option (\<lambda>(x, r). (c # x, r)) (unquote cs)"
  using assms by simp

declare unquote.simps [simp del]

lemma unquote_quote_char:
  "unquote (quote_char c @ s) = map_option (\<lambda>(x, r). (c # x, r)) (unquote s)"
proof -
  let ?n = "of_char c :: nat"
  consider (b) "c = CHR 0x08" | (t) "c = CHR 0x09" | (n) "c = CHR 0x0A" | (f) "c = CHR 0x0C"
    | (r) "c = CHR 0x0D" | (q) "c = CHR 0x22" | (bs) "c = CHR 0x5C"
    | (low) "c \<noteq> CHR 0x08" "c \<noteq> CHR 0x09" "c \<noteq> CHR 0x0A" "c \<noteq> CHR 0x0C" "c \<noteq> CHR 0x0D"
            "c \<noteq> CHR 0x22" "c \<noteq> CHR 0x5C" "?n < 0x20"
    | (plain) "c \<noteq> CHR 0x08" "c \<noteq> CHR 0x09" "c \<noteq> CHR 0x0A" "c \<noteq> CHR 0x0C" "c \<noteq> CHR 0x0D"
            "c \<noteq> CHR 0x22" "c \<noteq> CHR 0x5C" "\<not> ?n < 0x20"
    by blast
  then show ?thesis
  proof cases
    case b
    have "unescape (CHR ''b'') = Some (CHR 0x08)" by (simp add: unescape_def)
    from unquote_escape[OF this] b show ?thesis by (simp add: quote_char_def)
  next
    case t
    have "unescape (CHR ''t'') = Some (CHR 0x09)" by (simp add: unescape_def)
    from unquote_escape[OF this] t show ?thesis by (simp add: quote_char_def)
  next
    case n
    have "unescape (CHR ''n'') = Some (CHR 0x0A)" by (simp add: unescape_def)
    from unquote_escape[OF this] n show ?thesis by (simp add: quote_char_def)
  next
    case f
    have "unescape (CHR ''f'') = Some (CHR 0x0C)" by (simp add: unescape_def)
    from unquote_escape[OF this] f show ?thesis by (simp add: quote_char_def)
  next
    case r
    have "unescape (CHR ''r'') = Some (CHR 0x0D)" by (simp add: unescape_def)
    from unquote_escape[OF this] r show ?thesis by (simp add: quote_char_def)
  next
    case q
    have "unescape (CHR 0x22) = Some (CHR 0x22)" by (simp add: unescape_def)
    from unquote_escape[OF this] q show ?thesis by (simp add: quote_char_def)
  next
    case bs
    have "unescape (CHR 0x5C) = Some (CHR 0x5C)" by (simp add: unescape_def)
    from unquote_escape[OF this] bs show ?thesis by (simp add: quote_char_def)
  next
    case low
    then have q: "quote_char c =
        [CHR 0x5C, CHR ''u'', CHR ''0'', CHR ''0'', hex_digit (?n div 16), hex_digit (?n mod 16)]"
      by (simp add: quote_char_def)
    have "?n div 16 < 16" "?n mod 16 < 16" "?n div 16 < 8"
      using low(8) by simp_all
    then have h: "hex_val (hex_digit (?n div 16)) = Some (?n div 16)"
      "hex_val (hex_digit (?n mod 16)) = Some (?n mod 16)"
      by (simp_all only: hex_val_hex_digit)
    have "16 * (?n div 16) + ?n mod 16 = ?n" by simp
    then have "char_of (16 * (?n div 16) + ?n mod 16) = c" by (simp only: char_of_char)
    with unquote_u00[OF h \<open>?n div 16 < 8\<close>, of s] show ?thesis
      by (simp only: q append_Cons append_Nil)
  next
    case plain
    then have "quote_char c = [c]"
      by (simp add: quote_char_def)
    with unquote_plain[OF plain(6,7,8)] show ?thesis by simp
  qed
qed

lemma unquote_quoted: "unquote (concat (map quote_char s) @ CHR 0x22 # rest) = Some (s, rest)"
  by (induction s) (simp_all add: unquote_quote_char unquote_closing)

lemma QuoteJSONString_read:
  "QuoteJSONString s @ rest = CHR 0x22 # concat (map quote_char s) @ CHR 0x22 # rest"
  by (simp add: QuoteJSONString_def)

subsection \<open>Numbers\<close>

lemma digit_char_digit: "k < 10 \<Longrightarrow> is_digit (digit_char k) \<and> digit_val (digit_char k) = k"
  by (simp add: is_digit_def digit_val_def digit_char_def)

lemma digit_char_eq_zero: "k < 10 \<Longrightarrow> digit_char k = CHR ''0'' \<longleftrightarrow> k = 0"
proof
  assume "k < 10" "digit_char k = CHR ''0''"
  then have "digit_val (digit_char k) = digit_val (CHR ''0'')" by simp
  with \<open>k < 10\<close> show "k = 0" by (simp add: digit_char_digit) (simp add: digit_val_def)
next
  assume "k = 0"
  have "(of_char (char_of (48 :: nat)) :: nat) = of_char (CHR ''0'')" by simp
  then have "char_of (48 :: nat) = CHR ''0''" by (simp only: of_char_eq_iff)
  with \<open>k = 0\<close> show "digit_char k = CHR ''0''" by (simp add: digit_char_def)
qed

lemma show_nat_digits: "list_all is_digit (show_nat n)"
proof (induction n rule: show_nat.induct)
  case (1 n)
  then show ?case
    by (subst show_nat.simps) (simp add: digit_char_digit)
qed

lemma digits_val_snoc: "digits_val (ds @ [c]) = 10 * digits_val ds + digit_val c"
  by (simp add: digits_val_def)

lemma digits_val_show_nat: "digits_val (show_nat n) = n"
proof (induction n rule: show_nat.induct)
  case (1 n)
  show ?case
  proof (cases "n < 10")
    case True
    then show ?thesis
      by (subst show_nat.simps) (simp add: digits_val_def digit_char_digit)
  next
    case False
    with 1 have "digits_val (show_nat (n div 10)) = n div 10" by simp
    with False show ?thesis
      by (subst show_nat.simps) (simp add: digits_val_snoc digit_char_digit)
  qed
qed

lemma show_nat_not_empty: "show_nat n \<noteq> []"
  by (subst show_nat.simps) simp

lemma show_nat_leading: "0 < n \<Longrightarrow> hd (show_nat n) \<noteq> CHR ''0''"
proof (induction n rule: show_nat.induct)
  case (1 n)
  show ?case
  proof (cases "n < 10")
    case True
    with 1(2) show ?thesis
      by (subst show_nat.simps) (simp add: digit_char_eq_zero)
  next
    case False
    then have "0 < n div 10" by simp
    with 1 False have "hd (show_nat (n div 10)) \<noteq> CHR ''0''" by simp
    with False show ?thesis
      by (subst show_nat.simps) (simp add: show_nat_not_empty)
  qed
qed

lemma show_nat_length_one: "length (show_nat n) > 1 \<Longrightarrow> 0 < n"
  by (cases "n = 0") (simp_all add: show_nat.simps)

lemma takeWhile_all:
  assumes "list_all P xs" and "rest = [] \<or> \<not> P (hd rest)"
  shows "takeWhile P (xs @ rest) = xs" and "dropWhile P (xs @ rest) = rest"
  using assms by (induction xs) (cases rest; simp)+

lemma digits_val_simps:
  "digits_val [a] = digit_val a"
  "digits_val [a, b] = 10 * digit_val a + digit_val b"
  "digits_val [a, b, c] = 10 * (10 * digit_val a + digit_val b) + digit_val c"
  by (simp_all add: digits_val_def)

text \<open>The fraction that \<open>show_thousandths\<close> writes reads back as \<open>r / 1000\<close>.\<close>

lemma show_thousandths_fraction:
  assumes "0 < r" and "r < 1000"
  shows "\<exists>fp. show_thousandths r = CHR ''.'' # fp \<and> fp \<noteq> [] \<and> list_all is_digit fp \<and>
              (of_nat (digits_val fp) :: rat) / 10 ^ length fp = of_nat r / 1000"
proof -
  have d: "r div 100 < 10" "r div 10 mod 10 < 10" "r mod 10 < 10"
    using assms by simp_all
  have h: "r div 100 = r div 10 div 10"
    by (simp add: div_mult2_eq)
  note dc = digit_char_digit[OF d(1)] digit_char_digit[OF d(2)] digit_char_digit[OF d(3)]
  consider (one) "r mod 100 = 0" | (two) "r mod 100 \<noteq> 0" "r mod 10 = 0" | (three) "r mod 100 \<noteq> 0" "r mod 10 \<noteq> 0"
    by blast
  then show ?thesis
  proof cases
    case one
    then have "r = 100 * (r div 100)" using mult_div_mod_eq[of 100 r] by linarith
    then have "(of_nat r :: rat) = of_nat (100 * (r div 100))" by simp
    then have "(of_nat r :: rat) = 100 * of_nat (r div 100)"
      by (simp only: of_nat_mult of_nat_numeral)
    then have "(of_nat (r div 100) :: rat) / 10 ^ 1 = of_nat r / 1000" by simp
    moreover have "show_thousandths r = CHR ''.'' # [digit_char (r div 100)]"
      using assms one by (simp add: show_thousandths_def)
    moreover have "digits_val [digit_char (r div 100)] = r div 100"
      by (simp add: digits_val_simps dc)
    ultimately show ?thesis using dc by auto
  next
    case two
    then have "r = 10 * (r div 10)" using mult_div_mod_eq[of 10 r] by linarith
    then have "(of_nat r :: rat) = of_nat (10 * (r div 10))" by simp
    then have "(of_nat r :: rat) = 10 * of_nat (r div 10)"
      by (simp only: of_nat_mult of_nat_numeral)
    then have "(of_nat (r div 10) :: rat) / 10 ^ 2 = of_nat r / 1000" by simp
    moreover have "show_thousandths r = CHR ''.'' # [digit_char (r div 100), digit_char (r div 10 mod 10)]"
      using assms two by (simp add: show_thousandths_def)
    moreover have "10 * (r div 100) + r div 10 mod 10 = r div 10"
      unfolding h by simp
    then have "digits_val [digit_char (r div 100), digit_char (r div 10 mod 10)] = r div 10"
      by (simp add: digits_val_simps dc)
    ultimately show ?thesis using dc by auto
  next
    case three
    have "show_thousandths r =
            CHR ''.'' # [digit_char (r div 100), digit_char (r div 10 mod 10), digit_char (r mod 10)]"
      using assms three by (simp add: show_thousandths_def)
    moreover have "10 * (10 * (r div 100) + r div 10 mod 10) + r mod 10 = r"
      unfolding h by simp
    then have "digits_val [digit_char (r div 100), digit_char (r div 10 mod 10), digit_char (r mod 10)] = r"
      by (simp add: digits_val_simps dc)
    moreover have "(of_nat r :: rat) / 10 ^ 3 = of_nat r / 1000" by simp
    ultimately show ?thesis using dc by auto
  qed
qed

lemma digit_not_sign: "is_digit c \<Longrightarrow> c \<noteq> CHR ''-'' \<and> c \<noteq> CHR ''.''"
  by (auto simp: is_digit_def)

text \<open>What \<open>parse_number\<close> reads from digits that are followed by something else.\<close>

lemma parse_number_digits:
  assumes "ip \<noteq> []" and "list_all is_digit ip" and "\<not> (1 < length ip \<and> hd ip = CHR ''0'')"
    and "rest = [] \<or> (\<not> is_digit (hd rest) \<and> hd rest \<noteq> CHR ''.'')"
  shows "parse_number (ip @ rest) = Some (of_nat (digits_val ip), rest)"
    and "parse_number (CHR ''-'' # ip @ rest) = Some (- of_nat (digits_val ip), rest)"
proof -
  from assms(1,2) have "is_digit (hd ip)" by (cases ip) simp_all
  then have hd: "hd (ip @ rest) \<noteq> CHR ''-''"
    using assms(1) digit_not_sign by simp
  from assms(4) have r: "rest = [] \<or> \<not> is_digit (hd rest)" by blast
  note tw = takeWhile_all[OF assms(2) r]
  from assms(4) have nodot: "\<not> (rest \<noteq> [] \<and> hd rest = CHR ''.'')" by blast
  show "parse_number (ip @ rest) = Some (of_nat (digits_val ip), rest)"
    unfolding parse_number_def Let_def using hd assms(1,3) nodot by (auto simp: tw)
  show "parse_number (CHR ''-'' # ip @ rest) = Some (- of_nat (digits_val ip), rest)"
    unfolding parse_number_def Let_def using assms(1,3) nodot by (auto simp: tw)
qed

lemma parse_number_fraction:
  assumes "ip \<noteq> []" and "list_all is_digit ip" and "\<not> (1 < length ip \<and> hd ip = CHR ''0'')"
    and "fp \<noteq> []" and "list_all is_digit fp"
    and "rest = [] \<or> \<not> is_digit (hd rest)"
  shows "parse_number (ip @ CHR ''.'' # fp @ rest) =
           Some (of_nat (digits_val ip) + of_nat (digits_val fp) / 10 ^ length fp, rest)"
    and "parse_number (CHR ''-'' # ip @ CHR ''.'' # fp @ rest) =
           Some (- (of_nat (digits_val ip) + of_nat (digits_val fp) / 10 ^ length fp), rest)"
proof -
  from assms(1,2) have "is_digit (hd ip)" by (cases ip) simp_all
  then have hd: "hd (ip @ CHR ''.'' # fp @ rest) \<noteq> CHR ''-''"
    using assms(1) digit_not_sign by simp
  have "\<not> is_digit (CHR ''.'')" by (simp add: is_digit_def)
  then have "CHR ''.'' # fp @ rest = [] \<or> \<not> is_digit (hd (CHR ''.'' # fp @ rest))" by simp
  note tw = takeWhile_all[OF assms(2) this] takeWhile_all[OF assms(5,6)]
  show "parse_number (ip @ CHR ''.'' # fp @ rest) =
           Some (of_nat (digits_val ip) + of_nat (digits_val fp) / 10 ^ length fp, rest)"
    unfolding parse_number_def Let_def using hd assms(1,3,4) by (simp add: tw)
  show "parse_number (CHR ''-'' # ip @ CHR ''.'' # fp @ rest) =
           Some (- (of_nat (digits_val ip) + of_nat (digits_val fp) / 10 ^ length fp), rest)"
    unfolding parse_number_def Let_def using assms(1,3,4) by (simp add: tw)
qed

lemma show_nat_no_leading_zero: "\<not> (1 < length (show_nat q) \<and> hd (show_nat q) = CHR ''0'')"
  using show_nat_leading show_nat_length_one by blast

text \<open>A duration reads back as it was, whatever but a digit or a point follows it.\<close>

lemma parse_number_show_millis:
  assumes "rest = [] \<or> (\<not> is_digit (hd rest) \<and> hd rest \<noteq> CHR ''.'')"
  shows "parse_number (show_millis k @ rest) = Some (of_int k / 1000, rest)"
proof -
  define a where "a = nat \<bar>k\<bar>"
  define q where "q = a div 1000"
  define r where "r = a mod 1000"
  have a: "a = 1000 * q + r" and r: "r < 1000"
    by (simp_all add: q_def r_def)
  have ka: "(of_int \<bar>k\<bar> :: rat) = of_nat a"
    by (simp add: a_def)
  have abs_val: "(of_nat a :: rat) / 1000 = of_nat q + of_nat r / 1000"
    by (simp add: a)
  note ip = show_nat_not_empty[of q] show_nat_digits[of q] show_nat_no_leading_zero[of q]
  have sm: "show_millis k @ rest =
              (if k < 0 then [CHR ''-''] else []) @ show_nat q @ show_thousandths r @ rest"
    by (simp add: show_millis_def a_def q_def r_def)
  show ?thesis
  proof (cases "r = 0")
    case True
    then have fr: "show_thousandths r = []" by (simp add: show_thousandths_def)
    from True abs_val have v: "(of_nat a :: rat) / 1000 = of_nat q" by simp
    show ?thesis
    proof (cases "k < 0")
      case True
      then have "(of_int k :: rat) / 1000 = - of_nat q"
        using v ka by simp
      with True parse_number_digits(2)[OF ip assms] show ?thesis
        by (simp add: sm fr digits_val_show_nat)
    next
      case False
      then have "(of_int k :: rat) / 1000 = of_nat q"
        using v ka by simp
      with False parse_number_digits(1)[OF ip assms] show ?thesis
        by (simp add: sm fr digits_val_show_nat)
    qed
  next
    case False
    with r show_thousandths_fraction[of r] obtain fp where
      fp: "show_thousandths r = CHR ''.'' # fp" "fp \<noteq> []" "list_all is_digit fp"
          "(of_nat (digits_val fp) :: rat) / 10 ^ length fp = of_nat r / 1000"
      by auto
    from assms have rest: "rest = [] \<or> \<not> is_digit (hd rest)" by blast
    note pf = parse_number_fraction[OF ip fp(2,3) rest]
    show ?thesis
    proof (cases "k < 0")
      case True
      then have "(of_int k :: rat) / 1000 = - (of_nat q + of_nat r / 1000)"
        using abs_val ka by simp
      with True pf(2) show ?thesis
        by (simp add: sm fp digits_val_show_nat)
    next
      case False
      then have "(of_int k :: rat) / 1000 = of_nat q + of_nat r / 1000"
        using abs_val ka by simp
      with False pf(1) show ?thesis
        by (simp add: sm fp digits_val_show_nat)
    qed
  qed
qed

lemma parse_number_show_number:
  assumes "d = of_int k / 1000"
    and "rest = [] \<or> (\<not> is_digit (hd rest) \<and> hd rest \<noteq> CHR ''.'')"
  shows "parse_number (show_number d @ rest) = Some (d, rest)"
proof -
  have "\<lfloor>d * 1000\<rfloor> = k" by (simp add: assms(1))
  then show ?thesis
    using parse_number_show_millis[OF assms(2), of k] by (simp add: show_number_def assms(1))
qed

lemma show_nat_is_show_number: "show_nat n = show_number (of_nat n)"
proof -
  have "(of_nat n :: rat) * 1000 = of_nat (n * 1000)" by simp
  then have "\<lfloor>(of_nat n :: rat) * 1000\<rfloor> = int (n * 1000)"
    by (simp only: floor_of_nat)
  moreover have "nat \<bar>int (n * 1000)\<bar> = n * 1000" by simp
  ultimately have "show_number (of_nat n) = show_nat (n * 1000 div 1000) @ show_thousandths (n * 1000 mod 1000)"
    by (simp add: show_number_def show_millis_def del: of_nat_mult)
  then show ?thesis
    by (simp add: show_thousandths_def)
qed

lemma parse_number_show_nat:
  assumes "rest = [] \<or> (\<not> is_digit (hd rest) \<and> hd rest \<noteq> CHR ''.'')"
  shows "parse_number (show_nat n @ rest) = Some (of_nat n, rest)"
  using parse_number_digits(1)[OF show_nat_not_empty show_nat_digits show_nat_no_leading_zero assms]
  by (simp add: digits_val_show_nat)

subsection \<open>Values\<close>

lemma parse_value_string: "parse_value (Suc n) (QuoteJSONString m @ rest) = Some (JString m, rest)"
  by (simp add: QuoteJSONString_def unquote_quoted)

lemma parse_value_numeric:
  assumes "is_digit c \<or> c = CHR ''-''"
  shows "parse_value (Suc n) (c # cs) = map_option (\<lambda>(x, r). (JNumber x, r)) (parse_number (c # cs))"
proof -
  from assms have "c \<noteq> CHR ''n''" "c \<noteq> CHR ''t''" "c \<noteq> CHR ''f''" "c \<noteq> CHR 0x22" "c \<noteq> CHR ''[''" "c \<noteq> CHR ''{''"
    by (auto simp: is_digit_def)
  then show ?thesis by simp
qed

lemma parse_value_true: "parse_value (Suc n) (''true'' @ rest) = Some (JBool True, rest)"
  by simp

lemma parse_value_false: "parse_value (Suc n) (''false'' @ rest) = Some (JBool False, rest)"
  by simp

lemma parse_value_empty_array: "parse_value (Suc n) (CHR ''['' # CHR '']'' # rest) = Some (JArray [], rest)"
  by simp

lemma parse_value_array:
  assumes "cs \<noteq> []" and "hd cs \<noteq> CHR '']''"
  shows "parse_value (Suc n) (CHR ''['' # cs) = map_option (\<lambda>(vs, r). (JArray vs, r)) (parse_elements n cs)"
  using assms by simp

lemma parse_value_object:
  assumes "cs \<noteq> []" and "hd cs \<noteq> CHR ''}''"
  shows "parse_value (Suc n) (CHR ''{'' # cs) = map_option (\<lambda>(ms, r). (JObject ms, r)) (parse_members n cs)"
  using assms by simp

lemma parse_elements_last:
  assumes "parse_value n s = Some (v, CHR '']'' # rest)"
  shows "parse_elements (Suc n) s = Some ([v], rest)"
  using assms by simp

lemma parse_elements_more:
  assumes "parse_value n s = Some (v, CHR '','' # nxt)"
  shows "parse_elements (Suc n) s = map_option (\<lambda>(vs, r'). (v # vs, r')) (parse_elements n nxt)"
  using assms by simp

lemma key_read: "key k @ s = CHR 0x22 # concat (map quote_char k) @ CHR 0x22 # CHR '':'' # s"
  by (simp add: key_def QuoteJSONString_def)

lemma parse_members_last:
  assumes "parse_value n s = Some (v, CHR ''}'' # rest)"
  shows "parse_members (Suc n) (key k @ s) = Some ([(k, v)], rest)"
  using assms by (simp add: key_read unquote_quoted)

lemma parse_members_more:
  assumes "parse_value n s = Some (v, CHR '','' # nxt)"
  shows "parse_members (Suc n) (key k @ s) = map_option (\<lambda>(ms, r'). ((k, v) # ms, r')) (parse_members n nxt)"
  using assms by (simp add: key_read unquote_quoted)

declare parse_value.simps [simp del] parse_elements.simps [simp del] parse_members.simps [simp del]

lemma key_starts: "key k @ s \<noteq> [] \<and> hd (key k @ s) \<noteq> CHR ''}''"
  by (simp add: key_read)

text \<open>One result object.\<close>

lemma parse_value_result:
  "parse_value (Suc (Suc (Suc (Suc n)))) (stringify_result r @ rest) = Some (json_of_result r, rest)"
proof -
  let ?lit = "if passed r then ''true'' else ''false''"
  let ?second = "key ''passed'' @ ?lit @ CHR ''}'' # rest"
  let ?first = "QuoteJSONString (message r) @ CHR '','' # ?second"
  have b: "parse_value (Suc n) (?lit @ CHR ''}'' # rest) = Some (JBool (passed r), CHR ''}'' # rest)"
    using parse_value_true[of n "CHR ''}'' # rest"] parse_value_false[of n "CHR ''}'' # rest"] by simp
  have m: "parse_value (Suc (Suc n)) ?first = Some (JString (message r), CHR '','' # ?second)"
    by (rule parse_value_string)
  have mem: "parse_members (Suc (Suc (Suc n))) (key ''message'' @ ?first) =
        Some ([(''message'', JString (message r)), (''passed'', JBool (passed r))], rest)"
    by (simp only: parse_members_more[OF m] parse_members_last[OF b]) simp
  have eq: "stringify_result r @ rest = CHR ''{'' # (key ''message'' @ ?first)"
    by (simp add: stringify_result_def)
  have st: "key ''message'' @ ?first \<noteq> []" "hd (key ''message'' @ ?first) \<noteq> CHR ''}''"
    using key_starts[of "''message''" ?first] by blast+
  have "parse_value (Suc (Suc (Suc (Suc n)))) (CHR ''{'' # (key ''message'' @ ?first)) =
          map_option (\<lambda>(ms, r). (JObject ms, r)) (parse_members (Suc (Suc (Suc n))) (key ''message'' @ ?first))"
    by (rule parse_value_object[OF st])
  also have "\<dots> = Some (json_of_result r, rest)"
    by (simp only: mem) (simp add: json_of_result_def)
  finally show ?thesis
    by (simp only: eq)
qed

lemma commas_Cons: "ys \<noteq> [] \<Longrightarrow> commas (x # ys) = x @ CHR '','' # commas ys"
  by (cases ys) simp_all

text \<open>The results, one after the other, up to the closing bracket.\<close>

lemma parse_elements_results:
  assumes "rs \<noteq> []"
  shows "parse_elements (Suc (Suc (Suc (Suc (length rs + n))))) (commas (map stringify_result rs) @ CHR '']'' # rest) =
           Some (map json_of_result rs, rest)"
  using assms
proof (induction rs rule: list_nonempty_induct)
  case (single r)
  have "parse_value (Suc (Suc (Suc (Suc n)))) (stringify_result r @ CHR '']'' # rest) =
          Some (json_of_result r, CHR '']'' # rest)"
    by (rule parse_value_result)
  from parse_elements_last[OF this] show ?case by simp
next
  case (cons r rs)
  let ?nxt = "commas (map stringify_result rs) @ CHR '']'' # rest"
  have pv: "parse_value (Suc (Suc (Suc (Suc (length rs + n))))) (stringify_result r @ CHR '','' # ?nxt) =
          Some (json_of_result r, CHR '','' # ?nxt)"
    by (rule parse_value_result)
  have "parse_elements (Suc (Suc (Suc (Suc (Suc (length rs + n)))))) (stringify_result r @ CHR '','' # ?nxt) =
          map_option (\<lambda>(vs, r'). (json_of_result r # vs, r'))
            (parse_elements (Suc (Suc (Suc (Suc (length rs + n))))) ?nxt)"
    by (rule parse_elements_more[OF pv])
  also have "\<dots> = Some (json_of_result r # map json_of_result rs, rest)"
    by (simp only: cons(2)) simp
  finally show ?case
    using cons(1) by (simp add: commas_Cons)
qed

lemma stringify_result_starts: "stringify_result r @ s \<noteq> [] \<and> hd (stringify_result r @ s) \<noteq> CHR '']''"
  by (simp add: stringify_result_def)

lemma commas_starts:
  assumes "rs \<noteq> []"
  shows "commas (map stringify_result rs) @ s \<noteq> [] \<and> hd (commas (map stringify_result rs) @ s) \<noteq> CHR '']''"
proof -
  from assms obtain r rs' where rs: "rs = r # rs'" by (cases rs) auto
  show ?thesis
  proof (cases rs')
    case Nil
    with rs stringify_result_starts[of r s] show ?thesis by simp
  next
    case (Cons r' rs'')
    with rs stringify_result_starts[of r "CHR '','' # commas (map stringify_result (r' # rs'')) @ s"]
    show ?thesis by simp
  qed
qed

text \<open>The array of the results.\<close>

lemma parse_value_results:
  "parse_value (Suc (Suc (Suc (Suc (Suc (length rs + n))))))
     (CHR ''['' # commas (map stringify_result rs) @ CHR '']'' # rest) =
   Some (JArray (map json_of_result rs), rest)"
proof (cases "rs = []")
  case True
  then show ?thesis by (simp add: parse_value_empty_array)
next
  case False
  let ?cs = "commas (map stringify_result rs) @ CHR '']'' # rest"
  have st: "?cs \<noteq> []" "hd ?cs \<noteq> CHR '']''"
    using commas_starts[OF False, of "CHR '']'' # rest"] by blast+
  have "parse_value (Suc (Suc (Suc (Suc (Suc (length rs + n)))))) (CHR ''['' # ?cs) =
          map_option (\<lambda>(vs, r). (JArray vs, r)) (parse_elements (Suc (Suc (Suc (Suc (length rs + n))))) ?cs)"
    by (rule parse_value_array[OF st])
  also have "\<dots> = Some (JArray (map json_of_result rs), rest)"
    by (simp only: parse_elements_results[OF False]) simp
  finally show ?thesis .
qed

lemma show_number_starts:
  assumes "d = of_int k / 1000"
  shows "\<exists>c cs. show_number d @ s = c # cs \<and> (is_digit c \<or> c = CHR ''-'')"
proof -
  have "\<lfloor>d * 1000\<rfloor> = k" by (simp add: assms)
  then have sn: "show_number d = (if k < 0 then [CHR ''-''] else []) @ show_nat (nat \<bar>k\<bar> div 1000) @ show_thousandths (nat \<bar>k\<bar> mod 1000)"
    by (simp add: show_number_def show_millis_def)
  obtain c cs where c: "show_nat (nat \<bar>k\<bar> div 1000) = c # cs"
    using show_nat_not_empty by (cases "show_nat (nat \<bar>k\<bar> div 1000)") auto
  with show_nat_digits[of "nat \<bar>k\<bar> div 1000"] have "is_digit c" by simp
  with c sn show ?thesis by (cases "k < 0") simp_all
qed

lemma parse_value_number:
  assumes "d = of_int k / 1000"
    and "rest = [] \<or> (\<not> is_digit (hd rest) \<and> hd rest \<noteq> CHR ''.'')"
  shows "parse_value (Suc n) (show_number d @ rest) = Some (JNumber d, rest)"
proof -
  from show_number_starts[OF assms(1), of rest] obtain c cs where
    c: "show_number d @ rest = c # cs" "is_digit c \<or> c = CHR ''-''"
    by blast
  from parse_value_numeric[OF c(2), of n cs] parse_number_show_number[OF assms]
  show ?thesis by (simp add: c(1))
qed

lemma separator_after_number:
  "CHR '','' # s = [] \<or> (\<not> is_digit (hd (CHR '','' # s)) \<and> hd (CHR '','' # s) \<noteq> CHR ''.'')"
  "CHR ''}'' # s = [] \<or> (\<not> is_digit (hd (CHR ''}'' # s)) \<and> hd (CHR ''}'' # s) \<noteq> CHR ''.'')"
  by (simp_all add: is_digit_def)

lemma parse_value_nat:
  assumes "rest = [] \<or> (\<not> is_digit (hd rest) \<and> hd rest \<noteq> CHR ''.'')"
  shows "parse_value (Suc n) (show_nat e @ rest) = Some (JNumber (of_nat e), rest)"
proof -
  have "(of_nat e :: rat) = of_int (1000 * int e) / 1000" by simp
  from parse_value_number[OF this assms, of n] show ?thesis
    by (simp only: show_nat_is_show_number)
qed

subsection \<open>The report\<close>

lemma parse_value_report:
  assumes "duration r = of_int k / 1000"
  shows "parse_value (Suc (Suc (Suc (Suc (Suc (Suc (Suc (length (results r) + n)))))))) (JSON_stringify r) =
           Some (json_of_report r, [])"
proof -
  let ?N = "length (results r) + n"
  let ?E = "show_number (duration r) @ CHR ''}'' # []"
  let ?D = "key ''duration'' @ ?E"
  let ?C = "show_nat (errorCount r) @ CHR '','' # ?D"
  let ?B = "key ''errorCount'' @ ?C"
  let ?A = "CHR ''['' # commas (map stringify_result (results r)) @ CHR '']'' # CHR '','' # ?B"
  have eq: "JSON_stringify r = CHR ''{'' # (key ''results'' @ ?A)"
    by (simp add: JSON_stringify_def)
  have e: "parse_value (Suc (Suc (Suc ?N))) ?E = Some (JNumber (duration r), CHR ''}'' # [])"
    by (rule parse_value_number[OF assms separator_after_number(2)])
  have c: "parse_value (Suc (Suc (Suc (Suc ?N)))) ?C = Some (JNumber (of_nat (errorCount r)), CHR '','' # ?D)"
    by (rule parse_value_nat[OF separator_after_number(1)])
  have a: "parse_value (Suc (Suc (Suc (Suc (Suc ?N))))) ?A =
             Some (JArray (map json_of_result (results r)), CHR '','' # ?B)"
    by (rule parse_value_results)
  have mem: "parse_members (Suc (Suc (Suc (Suc (Suc (Suc ?N)))))) (key ''results'' @ ?A) =
          Some ([(''results'', JArray (map json_of_result (results r))),
                 (''errorCount'', JNumber (of_nat (errorCount r))),
                 (''duration'', JNumber (duration r))], [])"
    by (simp only: parse_members_more[OF a] parse_members_more[OF c] parse_members_last[OF e]) simp
  have st: "key ''results'' @ ?A \<noteq> []" "hd (key ''results'' @ ?A) \<noteq> CHR ''}''"
    using key_starts[of "''results''" ?A] by blast+
  have "parse_value (Suc (Suc (Suc (Suc (Suc (Suc (Suc ?N))))))) (CHR ''{'' # (key ''results'' @ ?A)) =
          map_option (\<lambda>(ms, r). (JObject ms, r))
            (parse_members (Suc (Suc (Suc (Suc (Suc (Suc ?N)))))) (key ''results'' @ ?A))"
    by (rule parse_value_object[OF st])
  also have "\<dots> = Some (json_of_report r, [])"
    by (simp only: mem) (simp add: json_of_report_def)
  finally show ?thesis
    by (simp only: eq)
qed

lemma length_commas: "length rs \<le> length (commas (map stringify_result rs))"
proof (induction rs)
  case Nil
  show ?case by simp
next
  case (Cons r rs)
  have "1 \<le> length (stringify_result r)"
    by (simp add: stringify_result_def)
  with Cons show ?case
    by (cases "rs = []") (simp_all add: commas_Cons)
qed

lemma length_JSON_stringify: "length (results r) + 7 \<le> length (JSON_stringify r)"
  using length_commas[of "results r"] by (simp add: JSON_stringify_def key_def QuoteJSONString_def)

text \<open>The text of a report reads back as the object the report was written from.\<close>

lemma JSON_parse_stringify:
  assumes "duration r = of_int k / 1000"
  shows "JSON_parse (JSON_stringify r) = Some (json_of_report r)"
proof -
  from length_JSON_stringify[of r] obtain n where
    "length (JSON_stringify r) = length (results r) + 7 + n"
    using le_Suc_ex by blast
  then have "length (JSON_stringify r) = Suc (Suc (Suc (Suc (Suc (Suc (Suc (length (results r) + n)))))))"
    by simp
  with parse_value_report[OF assms, of n] show ?thesis
    by (simp add: JSON_parse_def)
qed

text \<open>And the object holds the report's values.\<close>

lemma those_results: "those (map (result_of_json \<circ> json_of_result) rs) = Some rs"
  by (induction rs) (simp_all add: json_of_result_def)

lemma nat_of_rat_of_nat: "nat_of_rat (of_nat n) = Some n"
  by (simp add: nat_of_rat_def)

lemma report_of_json_of_report: "report_of_json (json_of_report r) = Some r"
  by (simp add: json_of_report_def those_results nat_of_rat_of_nat)

section \<open>The report on the wire\<close>

text \<open>
  C8. In a run that sends the probe (\<^verbatim>\<open>sendReport\<close> absent or truthy) and gets the answer
  \<^verbatim>\<open>cavy-cli running\<close>, the requests of the whole run are the probe and one POST to
  \<^verbatim>\<open>http://127.0.0.1:8082/report\<close> with the header \<^verbatim>\<open>Content-Type: application/json\<close>, whose
  body is \<^verbatim>\<open>JSON.stringify(report)\<close>; and that body reads back as an object holding the
  report's \<^verbatim>\<open>results\<close>, \<^verbatim>\<open>errorCount\<close> and \<^verbatim>\<open>duration\<close>.
\<close>

theorem report_posted_once_and_reads_back:
  assumes "runTestSuites g p (TestRunner w) = (s, Some r, c)"
    and "\<not> loosely_differs_from_undefined (shouldSendReport p) \<or> truthy (shouldSendReport p)"
    and "probe_response g (world_after_suites g p w) = Responds ''cavy-cli running''"
  shows "requests_of (trace s) = [probe_request, post_request r] \<and>
         filter (\<lambda>rq. http_method rq = ''POST'') (requests_of (trace s)) = [post_request r] \<and>
         post_request r =
           \<lparr>url = ''http://127.0.0.1:8082/report'', http_method = ''POST'',
            headers = [(''Content-Type'', ''application/json'')], body = Some (JSON_stringify r)\<rparr> \<and>
         JSON_parse (JSON_stringify r) = Some (json_of_report r) \<and>
         report_of_json (json_of_report r) = Some r \<and>
         Option.bind (JSON_parse (JSON_stringify r)) report_of_json = Some r"
proof -
  from reporting_attempted(2)[OF assms(2,1)] assms(3)
  have rq: "requests_of (trace s) = [probe_request, post_request r]"
    by simp
  then have "filter (\<lambda>rq. http_method rq = ''POST'') (requests_of (trace s)) = [post_request r]"
    by (simp add: probe_request_def post_request_def)
  moreover have "post_request r =
           \<lparr>url = ''http://127.0.0.1:8082/report'', http_method = ''POST'',
            headers = [(''Content-Type'', ''application/json'')], body = Some (JSON_stringify r)\<rparr>"
    by (simp add: post_request_def report_url_def)
  moreover from runTestSuites_compiled[OF assms(1)] obtain k :: int where "duration r = of_int k / 1000"
    by blast
  then have "JSON_parse (JSON_stringify r) = Some (json_of_report r)"
    by (rule JSON_parse_stringify)
  moreover have "report_of_json (json_of_report r) = Some r"
    by (rule report_of_json_of_report)
  ultimately show ?thesis using rq by simp
qed

theorem report_posted_once_and_reads_back_witness:
  "fst (snd (runTestSuites ex_server (ex_props ex_suites JSUndefined) (TestRunner 0))) = Some ex_report \<and>
   probe_response ex_server (world_after_suites ex_server (ex_props ex_suites JSUndefined) 0) =
     Responds ''cavy-cli running'' \<and>
   requests_of (trace (fst (runTestSuites ex_server (ex_props ex_suites JSUndefined) (TestRunner 0)))) =
     [probe_request, post_request ex_report] \<and>
   Option.bind (JSON_parse (JSON_stringify ex_report)) report_of_json = Some ex_report"
proof -
  let ?p = "ex_props ex_suites JSUndefined"
  have run: "runTestSuites ex_server ?p (TestRunner 0) =
      (fst (runTestSuites ex_server ?p (TestRunner 0)), Some ex_report,
       snd (snd (runTestSuites ex_server ?p (TestRunner 0))))"
    using ex_run_report by (simp add: prod_eq_iff)
  have toggle: "\<not> loosely_differs_from_undefined (shouldSendReport ?p) \<or> truthy (shouldSendReport ?p)"
    by (simp add: ex_props_def)
  have answer: "probe_response ex_server (world_after_suites ex_server ?p 0) = Responds ''cavy-cli running''"
    by (simp add: probe_response_def ex_server_def probe_request_def)
  from report_posted_once_and_reads_back[OF run toggle answer] ex_run_report answer
  show ?thesis by blast
qed

end
